theory Spec2Isabelle
  imports Complex_Main "HOL-Library.Multiset" "HOL-Library.Word"
begin

text \<open>
  A model of the automated-message pipeline of the messaging backend: the planner,
  the scanner and the retention sweep of \<^verbatim>\<open>services/cronService.js\<close>, the consumer
  of \<^verbatim>\<open>services/messageConsumer.js\<close> with the callback of \<^verbatim>\<open>config/rabbitmq.js\<close>,
  and the AutoMessage and Conversation models they call. State is passed explicitly,
  a thrown error is the left injection of a sum, and the clock, the time zone, the
  random numbers and the failures of the database and the broker are parameters.
\<close>

section \<open>Data model\<close>

text \<open>
  An ObjectId is a natural number, a Date its epoch value in milliseconds
  (\<^verbatim>\<open>getTime()\<close>). A Mongoose document is a record; an optional path that has
  not been set is \<open>None\<close>. The content of a message is a JavaScript string, the list
  of its UTF-16 code units, so that its length and its white space are those of the
  code; \<open>ascii\<close> writes one from ASCII text. Names and error messages are plain text.
\<close>

type_synonym oid = nat
type_synonym time = int
type_synonym code_unit = "16 word"
type_synonym jsstring = "code_unit list"

definition ascii :: "string \<Rightarrow> jsstring" where
  "ascii s = map of_char s"

text \<open>
  \<^verbatim>\<open>models/AutoMessage.js\<close>, the scheduling record. \<open>am_id\<close> is \<^verbatim>\<open>_id\<close>;
  \<open>createdAt\<close> comes from \<^verbatim>\<open>timestamps: true\<close>. \<open>retryCount\<close> is a JS Number
  that starts at 0 and only ever grows by 1, so it is an integer here.
\<close>

record autoMessage =
  am_id :: oid
  sender :: oid
  receiver :: oid
  content :: jsstring
  sendDate :: time
  isQueued :: bool
  queuedAt :: "time option"
  isSent :: bool
  sentAt :: "time option"
  messageId :: "oid option"
  error :: "string option"
  retryCount :: int
  createdAt :: time

text \<open>The paths of a User document that the services read.\<close>

record user =
  u_id :: oid
  username :: string
  email :: string
  isActive :: bool

text \<open>The Conversation model: \<open>c_id\<close> is \<^verbatim>\<open>_id\<close>, \<open>c_isActive\<close> is \<^verbatim>\<open>isActive\<close>.\<close>

record conversation =
  c_id :: oid
  participants :: "oid list"
  lastMessage :: "oid option"
  lastActivity :: time
  c_isActive :: bool

text \<open>The Message model, with the paths that \<^verbatim>\<open>processAutoMessage\<close> sets or defaults.\<close>

datatype messageType = TextMessage | AutoMessage

record message =
  m_id :: oid
  m_sender :: oid
  m_receiver :: oid
  m_conversation :: oid
  m_content :: jsstring
  m_messageType :: messageType
  m_isRead :: bool
  m_isDeleted :: bool

text \<open>The object that the scanner publishes and the consumer receives.\<close>

record payload =
  autoMessageId :: oid
  senderId :: oid
  receiverId :: oid
  p_content :: jsstring
  senderUsername :: string
  receiverUsername :: string

text \<open>
  The collections and the queue \<^verbatim>\<open>message_sending_queue\<close>. Documents stand in
  their collection in insertion order.
\<close>

record world =
  users :: "user list"
  autoMessages :: "autoMessage list"
  messages :: "message list"
  conversations :: "conversation list"
  queue :: "payload list"

text \<open>
  Every awaited call on the database or the broker may reject. Which calls reject
  in a run, and with which \<^verbatim>\<open>error.message\<close>, is a parameter of the run: \<open>f c = Some msg\<close>
  says that the call \<open>c\<close> throws an error with that message and has no effect.
\<close>

datatype io_call =
    UserFind | AutoInsertMany
  | AutoFind | Publish oid | AutoSaveQueued oid | AutoSaveRetry oid
  | AutoDeleteMany
  | ConvFindOne | ConvCreate | ConvFindById
  | MessageSave | ConvSave | MessagePopulate | AutoFindById | AutoSaveSent
  | CatchFindById | CatchSaveRetry

type_synonym faults = "io_call \<Rightarrow> string option"

definition no_faults :: faults where
  "no_faults = (\<lambda>c. None)"

text \<open>A new ObjectId differs from every id of the collection.\<close>

definition nextId :: "oid list \<Rightarrow> oid" where
  "nextId ids = Suc (fold max ids 0)"

section \<open>Schema validation\<close>

text \<open>
  \<^verbatim>\<open>content\<close> is declared \<^verbatim>\<open>trim: true\<close>, \<^verbatim>\<open>required\<close> and
  \<^verbatim>\<open>maxlength: 1000\<close> in both the AutoMessage and the Message schema: the value is
  trimmed when it is set, and validated when the document is saved. The setter is
  \<^verbatim>\<open>String.prototype.trim\<close>, which removes at both ends the code units of
  ECMAScript's WhiteSpace and LineTerminator: TAB, LF, VT, FF, CR, SPACE, NBSP, the
  other space separators of Unicode, LS, PS and the byte order mark. \<^verbatim>\<open>required\<close>
  rejects the empty string and \<^verbatim>\<open>maxlength\<close> compares \<^verbatim>\<open>length\<close>, the number of
  code units. The error message is the one Mongoose builds from the model name, the
  path and the schema's text.
\<close>

definition is_space :: "code_unit \<Rightarrow> bool" where
  "is_space c \<longleftrightarrow> c \<in> set
     [0x0009, 0x000A, 0x000B, 0x000C, 0x000D, 0x0020, 0x00A0, 0x1680,
      0x2000, 0x2001, 0x2002, 0x2003, 0x2004, 0x2005, 0x2006, 0x2007, 0x2008, 0x2009, 0x200A,
      0x2028, 0x2029, 0x202F, 0x205F, 0x3000, 0xFEFF]"

definition trim :: "jsstring \<Rightarrow> jsstring" where
  "trim s = rev (dropWhile is_space (rev (dropWhile is_space s)))"

definition validateContent :: "string \<Rightarrow> jsstring \<Rightarrow> string option" where
  "validateContent model c =
     (if c = [] then Some (model @ '' validation failed: content: Message content is required'')
      else if length c > 1000
        then Some (model @ '' validation failed: content: Message cannot exceed 1000 characters'')
      else None)"

section \<open>AutoMessage: instance methods\<close>

text \<open>
  \<^verbatim>\<open>markAsQueued\<close>, \<^verbatim>\<open>markAsSent\<close> and \<^verbatim>\<open>incrementRetry\<close> assign paths of
  \<^verbatim>\<open>this\<close> and call \<^verbatim>\<open>save()\<close>. The assignment is the function on the
  document below; the clock reading \<^verbatim>\<open>new Date()\<close> is the argument \<open>now\<close>.
\<close>

definition markAsQueued :: "time \<Rightarrow> autoMessage \<Rightarrow> autoMessage" where
  "markAsQueued now this = this\<lparr>isQueued := True, queuedAt := Some now\<rparr>"

definition markAsSent :: "time \<Rightarrow> oid \<Rightarrow> autoMessage \<Rightarrow> autoMessage" where
  "markAsSent now mid this = this\<lparr>isSent := True, sentAt := Some now, messageId := Some mid\<rparr>"

text \<open>
  \<^verbatim>\<open>if (error)\<close> is JavaScript truthiness: \<^verbatim>\<open>null\<close> (the default argument)
  and the empty string are both falsy.
\<close>

definition truthy_string :: "string option \<Rightarrow> bool" where
  "truthy_string e = (case e of None \<Rightarrow> False | Some s \<Rightarrow> s \<noteq> [])"

definition incrementRetry :: "string option \<Rightarrow> autoMessage \<Rightarrow> autoMessage" where
  "incrementRetry err this =
     (let this1 = this\<lparr>retryCount := retryCount this + 1\<rparr>
      in if truthy_string err then this1\<lparr>error := err\<rparr> else this1)"

text \<open>
  \<^verbatim>\<open>save()\<close> writes the document back under its \<^verbatim>\<open>_id\<close>. Every caller reads
  the document from the collection and saves it in the same handler, so the stored
  document becomes the in-memory one.
\<close>

definition saveAutoMessage :: "autoMessage \<Rightarrow> autoMessage list \<Rightarrow> autoMessage list" where
  "saveAutoMessage doc coll = map (\<lambda>r. if am_id r = am_id doc then doc else r) coll"

definition findAutoMessageById :: "oid \<Rightarrow> autoMessage list \<Rightarrow> autoMessage option" where
  "findAutoMessageById i coll = find (\<lambda>r. am_id r = i) coll"

section \<open>AutoMessage: the scanner's query\<close>

text \<open>
  \<^verbatim>\<open>find({sendDate: {$lte: new Date()}, isQueued: false, isSent: false,
  retryCount: {$lt: 3}}).populate('sender receiver', 'username email')\<close>.
  \<^verbatim>\<open>populate\<close> replaces each reference by the user document it names, or by
  \<^verbatim>\<open>null\<close> when there is none.
\<close>

definition readyForQueuing :: "time \<Rightarrow> autoMessage \<Rightarrow> bool" where
  "readyForQueuing now r \<longleftrightarrow>
     sendDate r \<le> now \<and> isQueued r = False \<and> isSent r = False \<and> retryCount r < 3"

definition findUserById :: "oid \<Rightarrow> user list \<Rightarrow> user option" where
  "findUserById i us = find (\<lambda>u. u_id u = i) us"

type_synonym populated = "autoMessage \<times> user option \<times> user option"

definition populate :: "user list \<Rightarrow> autoMessage \<Rightarrow> populated" where
  "populate us r = (r, findUserById (sender r) us, findUserById (receiver r) us)"

definition getMessagesForQueuing :: "time \<Rightarrow> world \<Rightarrow> populated list" where
  "getMessagesForQueuing now w =
     map (populate (users w)) (filter (readyForQueuing now) (autoMessages w))"

section \<open>cronService: the retention sweep\<close>

text \<open>
  \<^verbatim>\<open>thirtyDaysAgo.setDate(thirtyDaysAgo.getDate() - 30)\<close> is arithmetic on the
  calendar of the process's time zone. In the terms of ECMAScript: the local time of
  the instant is \<open>t = now + LocalTZA(now, true)\<close>; the new local time keeps the time
  within the day and moves the day number back by 30, which is \<open>t - 30 * msPerDay\<close>;
  the new instant is that local time less \<open>LocalTZA\<close> of it, read as a local time.
  The zone, \<open>LocalTZA\<close>, is a parameter: \<open>tza t True\<close> is the offset from UTC in force
  at the instant \<open>t\<close>, \<open>tza t False\<close> the offset for the local time \<open>t\<close>.
\<close>

type_synonym zone = "time \<Rightarrow> bool \<Rightarrow> int"

definition dayMs :: int where
  "dayMs = 24 * 60 * 60 * 1000"

definition thirtyDaysAgo :: "zone \<Rightarrow> time \<Rightarrow> time" where
  "thirtyDaysAgo tza now =
     (let t = now + tza now True;
          newDate = t - 30 * dayMs
      in newDate - tza newDate False)"

text \<open>
  By how much the cut-off differs from thirty times 24 hours before \<open>now\<close>: the
  change of the offset between the two dates, zero in a zone whose offset is fixed.
\<close>

definition zoneShift :: "zone \<Rightarrow> time \<Rightarrow> int" where
  "zoneShift tza now = tza now True - tza (now + tza now True - 30 * dayMs) False"

text \<open>
  \<^verbatim>\<open>deleteMany\<close> removes the documents that match
  \<^verbatim>\<open>{createdAt: {$lt: thirtyDaysAgo}, isSent: true}\<close>; when it rejects, the job
  logs the error and nothing is deleted.
\<close>

definition cleanupMatch :: "zone \<Rightarrow> time \<Rightarrow> autoMessage \<Rightarrow> bool" where
  "cleanupMatch tza now r \<longleftrightarrow> createdAt r < thirtyDaysAgo tza now \<and> isSent r = True"

definition cleanupOldMessages :: "faults \<Rightarrow> zone \<Rightarrow> time \<Rightarrow> world \<Rightarrow> world" where
  "cleanupOldMessages f tza now w =
     (case f AutoDeleteMany of
        Some e \<Rightarrow> w
      | None \<Rightarrow> w\<lparr>autoMessages := filter (\<lambda>r. \<not> cleanupMatch tza now r) (autoMessages w)\<rparr>)"

section \<open>cronService: the planner\<close>

text \<open>
  The outcomes of \<^verbatim>\<open>Math.random()\<close> are a sequence of rationals, the \<open>k\<close>-th
  call returning \<open>g k\<close>; a function that draws takes the index of the next call
  and returns the index after its last one. \<^verbatim>\<open>Math.random()\<close> returns a value
  in \<open>[0, 1)\<close>, which is \<open>rng_ok\<close>; then every index computed below is in range.
\<close>

type_synonym rng = "nat \<Rightarrow> rat"

definition rng_ok :: "rng \<Rightarrow> bool" where
  "rng_ok g \<longleftrightarrow> (\<forall>k. 0 \<le> g k \<and> g k < 1)"

text \<open>
  The readings of the clock in a run of the planner are a sequence too, \<open>clk c\<close>
  being what the \<open>c\<close>-th \<^verbatim>\<open>new Date()\<close> of the run returns:
  \<^verbatim>\<open>getRandomSendDate\<close> reads the clock once for each pair, and Mongoose reads it
  again for \<^verbatim>\<open>createdAt\<close> when \<^verbatim>\<open>insertMany\<close> builds each document. A clock
  that is not set back during the run is \<open>clock_ok\<close>.
\<close>

type_synonym clock = "nat \<Rightarrow> time"

definition clock_ok :: "clock \<Rightarrow> bool" where
  "clock_ok clk \<longleftrightarrow> (\<forall>i j. i \<le> j \<longrightarrow> clk i \<le> clk j)"

text \<open>\<^verbatim>\<open>Math.floor(Math.random() * n)\<close>\<close>

definition randomInt :: "rng \<Rightarrow> nat \<Rightarrow> nat \<Rightarrow> nat" where
  "randomInt g k n = nat \<lfloor>g k * of_nat n\<rfloor>"

definition AUTO_MESSAGE_TEMPLATES :: "jsstring list" where
  "AUTO_MESSAGE_TEMPLATES =
    [ascii ''Hey! How's your day going?'',
     ascii ''Hope you're having a great time!'',
     ascii ''Just wanted to say hello! '' @ [0xD83D, 0xDC4B],
     ascii ''What's new with you today?'',
     ascii ''Sending you positive vibes! '' @ [0x2728],
     ascii ''Hope your week is going well!'',
     ascii ''Just checking in on you!'',
     ascii ''Have a wonderful day ahead!'',
     ascii ''Thinking of you today! '' @ [0xD83D, 0xDCAD],
     ascii ''Hope you're doing amazing!'',
     ascii ''Wishing you a fantastic day!'',
     ascii ''Just wanted to brighten your day! '' @ [0x2600, 0xFE0F],
     ascii ''Hope everything is going great for you!'',
     ascii ''Sending you good energy today!'',
     ascii ''Have an awesome day! '' @ [0xD83C, 0xDF1F]]"

text \<open>
  \<^verbatim>\<open>shuffleArray\<close>: the loop \<^verbatim>\<open>for (i = length - 1; i > 0; i--)\<close> draws
  \<open>j\<close> in \<open>0..i\<close> and swaps the elements at \<open>i\<close> and \<open>j\<close>.
\<close>

fun shuffle_loop :: "rng \<Rightarrow> nat \<Rightarrow> 'a list \<Rightarrow> nat \<Rightarrow> 'a list \<times> nat" where
  "shuffle_loop g k shuffled 0 = (shuffled, k)"
| "shuffle_loop g k shuffled (Suc i') =
     (let i = Suc i'; j = randomInt g k (i + 1)
      in shuffle_loop g (k + 1) (shuffled[i := shuffled ! j, j := shuffled ! i]) i')"

definition shuffleArray :: "rng \<Rightarrow> nat \<Rightarrow> 'a list \<Rightarrow> 'a list \<times> nat" where
  "shuffleArray g k array = shuffle_loop g k array (length array - 1)"

definition getRandomMessage :: "rng \<Rightarrow> nat \<Rightarrow> jsstring \<times> nat" where
  "getRandomMessage g k =
     (let randomIndex = randomInt g k (length AUTO_MESSAGE_TEMPLATES)
      in (AUTO_MESSAGE_TEMPLATES ! randomIndex, k + 1))"

definition getRandomSendDate :: "time \<Rightarrow> rng \<Rightarrow> nat \<Rightarrow> time \<times> nat" where
  "getRandomSendDate now g k =
     (let hoursToAdd = \<lfloor>g k * 24\<rfloor> + 1;
          minutesToAdd = \<lfloor>g (k + 1) * 60\<rfloor>
      in (now + (hoursToAdd * 60 * 60 * 1000) + (minutesToAdd * 60 * 1000), k + 2))"

text \<open>
  The pairing loop \<^verbatim>\<open>for (i = 0; i < length - 1; i += 2)\<close>; the test
  \<^verbatim>\<open>if (shuffledUsers[i + 1])\<close> holds when the index is in range, a document
  being truthy.
\<close>

function pair_loop :: "'a list \<Rightarrow> nat \<Rightarrow> ('a \<times> 'a) list \<Rightarrow> ('a \<times> 'a) list" where
  "pair_loop shuffledUsers i pairs =
     (if i < length shuffledUsers - 1
      then pair_loop shuffledUsers (i + 2)
             (if i + 1 < length shuffledUsers
              then pairs @ [(shuffledUsers ! i, shuffledUsers ! (i + 1))] else pairs)
      else pairs)"
  by pat_completeness auto
termination
  by (relation "measure (\<lambda>(s, i, pairs). length s - i)") auto

declare pair_loop.simps [simp del]

text \<open>Both steps: the loop, then the pair of the last with the first for an odd length.\<close>

definition makePairs :: "'a list \<Rightarrow> ('a \<times> 'a) list" where
  "makePairs shuffledUsers =
     (let pairs = pair_loop shuffledUsers 0 []
      in if length shuffledUsers mod 2 \<noteq> 0
         then pairs @ [(shuffledUsers ! (length shuffledUsers - 1), shuffledUsers ! 0)]
         else pairs)"

text \<open>The objects handed to \<^verbatim>\<open>insertMany\<close>.\<close>

record newAutoMessage =
  n_sender :: oid
  n_receiver :: oid
  n_content :: jsstring
  n_sendDate :: time

text \<open>
  \<^verbatim>\<open>pairs.map(...)\<close>: for each pair a template is drawn, then
  \<^verbatim>\<open>getRandomSendDate()\<close> reads the clock and draws the offset.
\<close>

fun buildAutoMessages ::
  "clock \<Rightarrow> nat \<Rightarrow> rng \<Rightarrow> nat \<Rightarrow> (user \<times> user) list
     \<Rightarrow> newAutoMessage list \<times> nat \<times> nat" where
  "buildAutoMessages clk c g k [] = ([], k, c)"
| "buildAutoMessages clk c g k (pair # rest) =
     (let (msg, k1) = getRandomMessage g k;
          (d, k2) = getRandomSendDate (clk c) g k1;
          (ms, k3, c3) = buildAutoMessages clk (c + 1) g k2 rest
      in (\<lparr>n_sender = u_id (fst pair), n_receiver = u_id (snd pair),
            n_content = msg, n_sendDate = d\<rparr> # ms, k3, c3))"

text \<open>
  \<^verbatim>\<open>insertMany\<close> validates every document first and inserts none when one is
  invalid; an inserted document takes the schema defaults and the clock's reading at
  that moment as \<^verbatim>\<open>createdAt\<close>.
\<close>

definition createDoc :: "time \<Rightarrow> oid \<Rightarrow> newAutoMessage \<Rightarrow> autoMessage" where
  "createDoc now i d =
     \<lparr>am_id = i, sender = n_sender d, receiver = n_receiver d, content = trim (n_content d),
      sendDate = n_sendDate d, isQueued = False, queuedAt = None, isSent = False,
      sentAt = None, messageId = None, error = None, retryCount = 0, createdAt = now\<rparr>"

fun validateAll :: "newAutoMessage list \<Rightarrow> string option" where
  "validateAll [] = None"
| "validateAll (d # ds) =
     (case validateContent ''AutoMessage'' (trim (n_content d)) of
        Some e \<Rightarrow> Some e
      | None \<Rightarrow> validateAll ds)"

fun insertDocs ::
  "clock \<Rightarrow> nat \<Rightarrow> newAutoMessage list \<Rightarrow> autoMessage list \<Rightarrow> autoMessage list" where
  "insertDocs clk c [] coll = coll"
| "insertDocs clk c (d # ds) coll =
     insertDocs clk (c + 1) ds (coll @ [createDoc (clk c) (nextId (map am_id coll)) d])"

definition insertMany ::
  "faults \<Rightarrow> clock \<Rightarrow> nat \<Rightarrow> newAutoMessage list \<Rightarrow> autoMessage list
     \<Rightarrow> string + autoMessage list" where
  "insertMany f clk c docs coll =
     (case validateAll docs of
        Some e \<Rightarrow> Inl e
      | None \<Rightarrow> (case f AutoInsertMany of
                  Some e \<Rightarrow> Inl e
                | None \<Rightarrow> Inr (insertDocs clk c docs coll)))"

text \<open>
  \<^verbatim>\<open>createAutoMessages\<close>. An error of \<^verbatim>\<open>User.find\<close> or \<^verbatim>\<open>insertMany\<close>
  is caught and logged, the collections staying as they are; the statistics read
  after the insert changes nothing.
\<close>

definition createAutoMessages :: "faults \<Rightarrow> rng \<Rightarrow> clock \<Rightarrow> world \<Rightarrow> world" where
  "createAutoMessages f g clk w =
     (case f UserFind of
        Some e \<Rightarrow> w
      | None \<Rightarrow>
          (let activeUsers = filter isActive (users w)
           in if length activeUsers < 2 then w
              else
                (let (shuffledUsers, k) = shuffleArray g 0 activeUsers;
                     pairs = makePairs shuffledUsers;
                     (docs, k', c) = buildAutoMessages clk 0 g k pairs
                 in case insertMany f clk c docs (autoMessages w) of
                      Inl e \<Rightarrow> w
                    | Inr coll \<Rightarrow> w\<lparr>autoMessages := coll\<rparr>)))"

text \<open>In how many of the records a user is sender or receiver.\<close>

definition appearances :: "oid \<Rightarrow> autoMessage list \<Rightarrow> nat" where
  "appearances u rs = length (filter (\<lambda>r. sender r = u \<or> receiver r = u) rs)"

section \<open>cronService: the scanner\<close>

text \<open>
  The payload literal reads \<^verbatim>\<open>autoMessage.sender._id\<close> and
  \<^verbatim>\<open>autoMessage.receiver._id\<close>, a TypeError when the populated path is
  \<^verbatim>\<open>null\<close>.
\<close>

definition nullRead :: string where
  "nullRead = ''Cannot read properties of null (reading '_id')''"

definition toPayload :: "populated \<Rightarrow> string + payload" where
  "toPayload pm =
     (case pm of (r, s, rc) \<Rightarrow>
        (case s of
           None \<Rightarrow> Inl nullRead
         | Some su \<Rightarrow>
             (case rc of
                None \<Rightarrow> Inl nullRead
              | Some ru \<Rightarrow>
                  Inr \<lparr>autoMessageId = am_id r, senderId = u_id su, receiverId = u_id ru,
                       p_content = content r, senderUsername = username su,
                       receiverUsername = username ru\<rparr>)))"

text \<open>
  The body of the inner \<^verbatim>\<open>try\<close>: publish, then \<^verbatim>\<open>markAsQueued\<close>. The result
  carries the in-memory document, which keeps the paths assigned by
  \<^verbatim>\<open>markAsQueued\<close> when its \<^verbatim>\<open>save()\<close> rejects.
\<close>

definition tryQueue ::
  "faults \<Rightarrow> time \<Rightarrow> populated \<Rightarrow> world \<Rightarrow> (string + unit) \<times> autoMessage \<times> world" where
  "tryQueue f now pm w =
     (let r = fst pm in
      case toPayload pm of
        Inl e \<Rightarrow> (Inl e, r, w)
      | Inr p \<Rightarrow>
          (case f (Publish (am_id r)) of
             Some e \<Rightarrow> (Inl e, r, w)
           | None \<Rightarrow>
               (let w1 = w\<lparr>queue := queue w @ [p]\<rparr>;
                    r1 = markAsQueued now r
                in case f (AutoSaveQueued (am_id r)) of
                     Some e \<Rightarrow> (Inl e, r1, w1)
                   | None \<Rightarrow>
                       (Inr (), r1, w1\<lparr>autoMessages := saveAutoMessage r1 (autoMessages w1)\<rparr>))))"

text \<open>
  One iteration: the inner \<^verbatim>\<open>catch\<close> calls \<^verbatim>\<open>incrementRetry(error.message)\<close>;
  an error of that call leaves the loop (\<open>Inl\<close>).
\<close>

definition queueOne ::
  "faults \<Rightarrow> time \<Rightarrow> populated \<Rightarrow> world \<Rightarrow> (string + unit) \<times> world" where
  "queueOne f now pm w =
     (case tryQueue f now pm w of
        (Inr u, r1, w1) \<Rightarrow> (Inr (), w1)
      | (Inl e, r1, w1) \<Rightarrow>
          (case f (AutoSaveRetry (am_id r1)) of
             Some e' \<Rightarrow> (Inl e', w1)
           | None \<Rightarrow>
               (Inr (), w1\<lparr>autoMessages :=
                  saveAutoMessage (incrementRetry (Some e) r1) (autoMessages w1)\<rparr>)))"

fun queueLoop :: "faults \<Rightarrow> time \<Rightarrow> populated list \<Rightarrow> world \<Rightarrow> world" where
  "queueLoop f now [] w = w"
| "queueLoop f now (pm # rest) w =
     (case queueOne f now pm w of
        (Inl e, w1) \<Rightarrow> w1
      | (Inr u, w1) \<Rightarrow> queueLoop f now rest w1)"

definition queueReadyMessages :: "faults \<Rightarrow> time \<Rightarrow> world \<Rightarrow> world" where
  "queueReadyMessages f now w =
     (case f AutoFind of
        Some e \<Rightarrow> w
      | None \<Rightarrow>
          (let readyMessages = getMessagesForQueuing now w
           in if length readyMessages = 0 then w
              else queueLoop f now readyMessages w))"

section \<open>Conversation\<close>

text \<open>
  \<^verbatim>\<open>findOne({participants: {$all: [userId1, userId2]}, isActive: true})\<close> returns
  the first document whose \<^verbatim>\<open>participants\<close> array holds both ids.
\<close>

definition conv_match :: "oid \<Rightarrow> oid \<Rightarrow> conversation \<Rightarrow> bool" where
  "conv_match userId1 userId2 c \<longleftrightarrow>
     userId1 \<in> set (participants c) \<and> userId2 \<in> set (participants c) \<and> c_isActive c = True"

definition conv_findOne :: "oid \<Rightarrow> oid \<Rightarrow> conversation list \<Rightarrow> conversation option" where
  "conv_findOne userId1 userId2 coll = find (conv_match userId1 userId2) coll"

definition conv_findById :: "oid \<Rightarrow> conversation list \<Rightarrow> conversation option" where
  "conv_findById i coll = find (\<lambda>c. c_id c = i) coll"

text \<open>\<^verbatim>\<open>create({participants: [userId1, userId2]})\<close> with the schema defaults.\<close>

definition conv_create ::
  "time \<Rightarrow> oid \<Rightarrow> oid \<Rightarrow> conversation list \<Rightarrow> conversation \<times> conversation list" where
  "conv_create now userId1 userId2 coll =
     (let c = \<lparr>c_id = nextId (map c_id coll), participants = [userId1, userId2],
               lastMessage = None, lastActivity = now, c_isActive = True\<rparr>
      in (c, coll @ [c]))"

text \<open>
  The branch \<^verbatim>\<open>if (!conversation)\<close> of \<^verbatim>\<open>findOrCreateConversation\<close>: create,
  then read the new document back by its id. The result \<open>Inr None\<close> is \<^verbatim>\<open>null\<close>.
\<close>

definition createAndReload ::
  "faults \<Rightarrow> time \<Rightarrow> oid \<Rightarrow> oid \<Rightarrow> world \<Rightarrow> (string + conversation option) \<times> world" where
  "createAndReload f now userId1 userId2 w =
     (case f ConvCreate of
        Some e \<Rightarrow> (Inl e, w)
      | None \<Rightarrow>
          (let (c, coll) = conv_create now userId1 userId2 (conversations w);
               w1 = w\<lparr>conversations := coll\<rparr>
           in case f ConvFindById of
                Some e \<Rightarrow> (Inl e, w1)
              | None \<Rightarrow> (Inr (conv_findById (c_id c) coll), w1)))"

definition findOrCreateConversation ::
  "faults \<Rightarrow> time \<Rightarrow> oid \<Rightarrow> oid \<Rightarrow> world \<Rightarrow> (string + conversation option) \<times> world" where
  "findOrCreateConversation f now userId1 userId2 w =
     (case f ConvFindOne of
        Some e \<Rightarrow> (Inl e, w)
      | None \<Rightarrow>
          (case conv_findOne userId1 userId2 (conversations w) of
             Some c \<Rightarrow> (Inr (Some c), w)
           | None \<Rightarrow> createAndReload f now userId1 userId2 w))"

text \<open>
  Two calls that overlap. The function awaits \<^verbatim>\<open>findOne\<close> before it creates,
  so a second call can run its \<^verbatim>\<open>findOne\<close> while the first is suspended there:
  here both lookups run on the initial collection, then each call continues with
  what its own lookup returned.
\<close>

definition continueAfterLookup ::
  "faults \<Rightarrow> time \<Rightarrow> oid \<Rightarrow> oid \<Rightarrow> conversation option \<Rightarrow> world
     \<Rightarrow> (string + conversation option) \<times> world" where
  "continueAfterLookup f now userId1 userId2 found w =
     (case found of
        Some c \<Rightarrow> (Inr (Some c), w)
      | None \<Rightarrow> createAndReload f now userId1 userId2 w)"

definition findOrCreate_overlapped ::
  "time \<Rightarrow> oid \<times> oid \<Rightarrow> oid \<times> oid \<Rightarrow> world
     \<Rightarrow> (string + conversation option) \<times> (string + conversation option) \<times> world" where
  "findOrCreate_overlapped now call1 call2 w =
     (let found1 = conv_findOne (fst call1) (snd call1) (conversations w);
          found2 = conv_findOne (fst call2) (snd call2) (conversations w);
          (res1, w1) = continueAfterLookup no_faults now (fst call1) (snd call1) found1 w;
          (res2, w2) = continueAfterLookup no_faults now (fst call2) (snd call2) found2 w1
      in (res1, res2, w2))"

text \<open>
  \<^verbatim>\<open>updateLastActivity(messageId)\<close>, called with the id of the new message, and
  the \<^verbatim>\<open>save()\<close> that writes the conversation back.
\<close>

definition updateLastActivity :: "time \<Rightarrow> oid option \<Rightarrow> conversation \<Rightarrow> conversation" where
  "updateLastActivity now mid this =
     (let this1 = this\<lparr>lastActivity := now\<rparr>
      in case mid of None \<Rightarrow> this1 | Some i \<Rightarrow> this1\<lparr>lastMessage := Some i\<rparr>)"

definition saveConversation :: "conversation \<Rightarrow> conversation list \<Rightarrow> conversation list" where
  "saveConversation doc coll = map (\<lambda>c. if c_id c = c_id doc then doc else c) coll"

section \<open>messageConsumer\<close>

text \<open>
  \<^verbatim>\<open>new Message({...})\<close> with \<^verbatim>\<open>messageType: 'auto'\<close>; the id is drawn when the
  document is constructed.
\<close>

definition newMessage :: "payload \<Rightarrow> oid \<Rightarrow> message list \<Rightarrow> message" where
  "newMessage p conv coll =
     \<lparr>m_id = nextId (map m_id coll), m_sender = senderId p, m_receiver = receiverId p,
      m_conversation = conv, m_content = trim (p_content p), m_messageType = AutoMessage,
      m_isRead = False, m_isDeleted = False\<rparr>"

text \<open>
  The \<^verbatim>\<open>try\<close> block of \<^verbatim>\<open>processAutoMessage\<close>. \<open>Inl e\<close> is an error thrown
  with message \<open>e\<close>, returned with the collections as they stand at that point.
  \<^verbatim>\<open>emitToUser\<close> writes to a socket only and does not throw.
\<close>

definition processAutoMessage_try ::
  "faults \<Rightarrow> time \<Rightarrow> payload \<Rightarrow> world \<Rightarrow> (string + unit) \<times> world" where
  "processAutoMessage_try f now p w =
     (case findOrCreateConversation f now (senderId p) (receiverId p) w of
        (Inl e, w1) \<Rightarrow> (Inl e, w1)
      | (Inr None, w1) \<Rightarrow> (Inl nullRead, w1)
      | (Inr (Some conv), w1) \<Rightarrow>
          (let msg = newMessage p (c_id conv) (messages w1)
           in case validateContent ''Message'' (m_content msg) of
                Some e \<Rightarrow> (Inl e, w1)
              | None \<Rightarrow>
          (case f MessageSave of
             Some e \<Rightarrow> (Inl e, w1)
           | None \<Rightarrow>
          (let w2 = w1\<lparr>messages := messages w1 @ [msg]\<rparr>
           in case f ConvSave of
                Some e \<Rightarrow> (Inl e, w2)
              | None \<Rightarrow>
          (let w3 = w2\<lparr>conversations :=
                       saveConversation (updateLastActivity now (Some (m_id msg)) conv)
                         (conversations w2)\<rparr>
           in case f MessagePopulate of
                Some e \<Rightarrow> (Inl e, w3)
              | None \<Rightarrow>
          (case f AutoFindById of
             Some e \<Rightarrow> (Inl e, w3)
           | None \<Rightarrow>
          (case findAutoMessageById (autoMessageId p) (autoMessages w3) of
             None \<Rightarrow> (Inr (), w3)
           | Some autoMsg \<Rightarrow>
               (case f AutoSaveSent of
                  Some e \<Rightarrow> (Inl e, w3)
                | None \<Rightarrow>
                    (Inr (), w3\<lparr>autoMessages :=
                       saveAutoMessage (markAsSent now (m_id msg) autoMsg)
                         (autoMessages w3)\<rparr>)))))))))"

text \<open>
  The \<^verbatim>\<open>catch\<close> block: look the record up again and call
  \<^verbatim>\<open>incrementRetry(error.message)\<close>; an error of these two calls is logged and
  dropped.
\<close>

definition processAutoMessage_catch :: "faults \<Rightarrow> payload \<Rightarrow> string \<Rightarrow> world \<Rightarrow> world" where
  "processAutoMessage_catch f p e w =
     (case f CatchFindById of
        Some e' \<Rightarrow> w
      | None \<Rightarrow>
          (case findAutoMessageById (autoMessageId p) (autoMessages w) of
             None \<Rightarrow> w
           | Some autoMsg \<Rightarrow>
               (case f CatchSaveRetry of
                  Some e' \<Rightarrow> w
                | None \<Rightarrow>
                    w\<lparr>autoMessages :=
                       saveAutoMessage (incrementRetry (Some e) autoMsg) (autoMessages w)\<rparr>)))"

text \<open>\<^verbatim>\<open>processAutoMessage\<close>: the error is thrown again after the \<^verbatim>\<open>catch\<close> block.\<close>

definition processAutoMessage ::
  "faults \<Rightarrow> time \<Rightarrow> payload \<Rightarrow> world \<Rightarrow> (string + unit) \<times> world" where
  "processAutoMessage f now p w =
     (case processAutoMessage_try f now p w of
        (Inr u, w1) \<Rightarrow> (Inr (), w1)
      | (Inl e, w1) \<Rightarrow> (Inl e, processAutoMessage_catch f p e w1))"

section \<open>rabbitmq: the consumer callback\<close>

text \<open>
  The callback of \<^verbatim>\<open>consumeFromQueue\<close> on a parsed message:
  \<^verbatim>\<open>channel.ack(msg)\<close> when the handler returns, \<^verbatim>\<open>channel.nack(msg, false, true)\<close>
  (reject and requeue) when it throws.
\<close>

datatype delivery = Ack | NackRequeue

definition onMessage :: "faults \<Rightarrow> time \<Rightarrow> payload \<Rightarrow> world \<Rightarrow> delivery \<times> world" where
  "onMessage f now p w =
     (case processAutoMessage f now p w of
        (Inr u, w1) \<Rightarrow> (Ack, w1)
      | (Inl e, w1) \<Rightarrow> (NackRequeue, w1))"

section \<open>Auxiliary notions for the proofs\<close>

text \<open>The consecutive disjoint pairs of a list, an unpaired last element being dropped.\<close>

fun pairsOf :: "'a list \<Rightarrow> ('a \<times> 'a) list" where
  "pairsOf (a # b # rest) = (a, b) # pairsOf rest"
| "pairsOf [x] = []"
| "pairsOf [] = []"

text \<open>The elements of a list of pairs, in order.\<close>

definition slots :: "('a \<times> 'a) list \<Rightarrow> 'a list" where
  "slots ps = concat (map (\<lambda>(a, b). [a, b]) ps)"

text \<open>In how many pairs an element stands.\<close>

definition cnt :: "'a \<Rightarrow> ('a \<times> 'a) list \<Rightarrow> nat" where
  "cnt u ps = length (filter (\<lambda>(a, b). a = u \<or> b = u) ps)"

text \<open>
  What \<^verbatim>\<open>findOrCreateConversation\<close> returns, and the collections it leaves, when no
  database call fails.
\<close>

definition resolved :: "time \<Rightarrow> oid \<Rightarrow> oid \<Rightarrow> world \<Rightarrow> conversation" where
  "resolved now a b w =
     (case conv_findOne a b (conversations w) of
        Some c \<Rightarrow> c
      | None \<Rightarrow> fst (conv_create now a b (conversations w)))"

definition resolved_world :: "time \<Rightarrow> oid \<Rightarrow> oid \<Rightarrow> world \<Rightarrow> world" where
  "resolved_world now a b w =
     (case conv_findOne a b (conversations w) of
        Some c \<Rightarrow> w
      | None \<Rightarrow> w\<lparr>conversations := snd (conv_create now a b (conversations w))\<rparr>)"

text \<open>The collections after a delivery in which no call fails.\<close>

definition delivered :: "time \<Rightarrow> payload \<Rightarrow> world \<Rightarrow> world" where
  "delivered now p w =
     (let conv = resolved now (senderId p) (receiverId p) w;
          w1 = resolved_world now (senderId p) (receiverId p) w;
          msg = newMessage p (c_id conv) (messages w);
          w3 = w1\<lparr>messages := messages w @ [msg],
                 conversations := saveConversation (updateLastActivity now (Some (m_id msg)) conv)
                   (conversations w1)\<rparr>
      in case findAutoMessageById (autoMessageId p) (autoMessages w) of
           None \<Rightarrow> w3
         | Some autoMsg \<Rightarrow>
             w3\<lparr>autoMessages := saveAutoMessage (markAsSent now (m_id msg) autoMsg) (autoMessages w)\<rparr>)"

text \<open>
  A selected record can be published when both its users exist; what one iteration of
  a scan stores for a selected record when no call fails; the ids a scan without
  failing calls publishes.
\<close>

definition publishable :: "user list \<Rightarrow> autoMessage \<Rightarrow> bool" where
  "publishable us r \<longleftrightarrow> findUserById (sender r) us \<noteq> None \<and> findUserById (receiver r) us \<noteq> None"

definition scanned :: "user list \<Rightarrow> time \<Rightarrow> autoMessage \<Rightarrow> autoMessage" where
  "scanned us now r =
     (if publishable us r then markAsQueued now r else incrementRetry (Some nullRead) r)"

definition published :: "time \<Rightarrow> world \<Rightarrow> oid list" where
  "published now w =
     map am_id (filter (publishable (users w)) (filter (readyForQueuing now) (autoMessages w)))"

section \<open>Example data\<close>

definition example_record :: autoMessage where
  "example_record =
     \<lparr>am_id = 1, sender = 10, receiver = 11, content = ascii ''Just checking in on you!'',
      sendDate = 1000, isQueued = False, queuedAt = None, isSent = False, sentAt = None,
      messageId = None, error = None, retryCount = 0, createdAt = 0\<rparr>"

definition example_user :: "oid \<Rightarrow> user" where
  "example_user i = \<lparr>u_id = i, username = ''user'', email = ''user@example.com'', isActive = True\<rparr>"

definition example_payload :: payload where
  "example_payload =
     \<lparr>autoMessageId = 1, senderId = 10, receiverId = 11,
      p_content = ascii ''Just checking in on you!'',
      senderUsername = ''user'', receiverUsername = ''user''\<rparr>"

definition example_world :: world where
  "example_world =
     \<lparr>users = [example_user 10, example_user 11], autoMessages = [example_record],
      messages = [], conversations = [], queue = []\<rparr>"

definition three_users :: world where
  "three_users = example_world\<lparr>users := [example_user 1, example_user 2, example_user 3]\<rparr>"

text \<open>The same payload delivered twice, every call succeeding.\<close>

definition delivered_once :: world where
  "delivered_once = snd (onMessage no_faults 1 example_payload example_world)"

definition delivered_twice :: world where
  "delivered_twice = snd (onMessage no_faults 2 example_payload delivered_once)"

text \<open>
  A queued record that has failed twice, and a run in which saving the message fails.
\<close>

definition failing :: faults where
  "failing = no_faults(MessageSave := Some ''connection lost'')"

definition queued_world :: world where
  "queued_world = example_world\<lparr>autoMessages :=
     [example_record\<lparr>isQueued := True, queuedAt := Some 1000, retryCount := 2\<rparr>]\<rparr>"

definition failed_once :: world where
  "failed_once = snd (onMessage failing 1 example_payload queued_world)"

text \<open>
  A payload that names no scheduling record and whose content is white space only, a
  no-break space and a space.
\<close>

definition blank_payload :: payload where
  "blank_payload = example_payload\<lparr>autoMessageId := 99, p_content := [0x00A0, 0x0020]\<rparr>"

text \<open>A record that the scanner has already marked.\<close>

definition queued_record :: autoMessage where
  "queued_record = example_record\<lparr>isQueued := True, queuedAt := Some 5\<rparr>"

text \<open>
  The zone UTC, and a zone that is five hours behind UTC before the instant of day 20
  and four hours behind from then on.
\<close>

definition utc_zone :: zone where
  "utc_zone t isUTC = 0"

definition dst_zone :: zone where
  "dst_zone t isUTC = (if t < 20 * dayMs then - 5 * 3600000 else - 4 * 3600000)"

text \<open>
  A clock that advances by a millisecond from one reading to the next, draws that
  are all 0, and two active users with no scheduling record yet.
\<close>

definition tick_clock :: clock where
  "tick_clock c = int c"

definition draw_low :: rng where
  "draw_low k = 0"

definition two_users :: world where
  "two_users = example_world\<lparr>autoMessages := []\<rparr>"

section \<open>Trimming, and unfolding the model on concrete data\<close>

lemma trim_id: "s \<noteq> [] \<Longrightarrow> \<not> is_space (hd s) \<Longrightarrow> \<not> is_space (last s) \<Longrightarrow> trim s = s"
proof -
  assume a: "s \<noteq> []" "\<not> is_space (hd s)" "\<not> is_space (last s)"
  have 1: "dropWhile is_space s = s" using a by (simp add: dropWhile_eq_self_iff)
  have "hd (rev s) = last s" using a by (simp add: hd_rev)
  then have 2: "dropWhile is_space (rev s) = rev s" using a by (simp add: dropWhile_eq_self_iff)
  show ?thesis by (simp add: trim_def 1 2)
qed

lemma trim_example:
  "trim (ascii ''Just checking in on you!'') = ascii ''Just checking in on you!''"
  by (rule trim_id) (simp_all add: ascii_def is_space_def)

lemma valid_example: "validateContent m (ascii ''Just checking in on you!'') = None"
  by (simp add: validateContent_def ascii_def)

lemma trim_blank: "trim [0x00A0, 0x0020] = []"
  by (simp add: trim_def is_space_def)

lemma validate_empty:
  "validateContent m [] = Some (m @ '' validation failed: content: Message content is required'')"
  by (simp add: validateContent_def)

lemmas consumer_defs =
  onMessage_def processAutoMessage_def processAutoMessage_try_def processAutoMessage_catch_def
  findOrCreateConversation_def createAndReload_def conv_findOne_def conv_findById_def
  conv_create_def conv_match_def nextId_def newMessage_def trim_example valid_example
  trim_blank validate_empty findAutoMessageById_def saveAutoMessage_def saveConversation_def
  updateLastActivity_def markAsSent_def incrementRetry_def truthy_string_def Let_def

lemmas scanner_defs =
  queueLoop.simps queueOne_def tryQueue_def toPayload_def getMessagesForQueuing_def
  readyForQueuing_def populate_def findUserById_def saveAutoMessage_def markAsQueued_def
  Let_def

lemmas example_defs =
  example_world_def example_payload_def example_record_def example_user_def no_faults_def

section \<open>Properties of the scheduling record\<close>

text \<open>
  C10. \<^verbatim>\<open>incrementRetry\<close> adds exactly 1 to \<open>retryCount\<close> and leaves sender,
  receiver, content, sendDate, isQueued, queuedAt, isSent, sentAt and messageId as
  they were; called without an error argument it leaves the error path as it was too.
\<close>

theorem incrementRetry_frame:
  "retryCount (incrementRetry e r) = retryCount r + 1
   \<and> sender (incrementRetry e r) = sender r
   \<and> receiver (incrementRetry e r) = receiver r
   \<and> content (incrementRetry e r) = content r
   \<and> sendDate (incrementRetry e r) = sendDate r
   \<and> isQueued (incrementRetry e r) = isQueued r
   \<and> queuedAt (incrementRetry e r) = queuedAt r
   \<and> isSent (incrementRetry e r) = isSent r
   \<and> sentAt (incrementRetry e r) = sentAt r
   \<and> messageId (incrementRetry e r) = messageId r
   \<and> error (incrementRetry None r) = error r"
  by (simp add: incrementRetry_def truthy_string_def Let_def)

theorem incrementRetry_frame_witness:
  "retryCount (incrementRetry (Some ''boom'') example_record) = 1
   \<and> error (incrementRetry None (example_record\<lparr>error := Some ''old''\<rparr>)) = Some ''old''"
  using incrementRetry_frame [of "Some ''boom''" example_record]
    incrementRetry_frame [of None "example_record\<lparr>error := Some ''old''\<rparr>"]
  by (simp add: example_record_def)

text \<open>
  C4. The scanner's query returns exactly the records with \<open>sendDate \<le> now\<close>, not
  queued, not sent and \<open>retryCount < 3\<close>, in collection order; a record with
  \<open>retryCount \<ge> 3\<close>, or already queued, or already sent, is returned at no time.
\<close>

theorem getMessagesForQueuing_exact:
  "map fst (getMessagesForQueuing now w) =
     filter (\<lambda>r. sendDate r \<le> now \<and> \<not> isQueued r \<and> \<not> isSent r \<and> retryCount r < 3)
       (autoMessages w)
   \<and> (\<forall>r t. retryCount r \<ge> 3 \<or> isQueued r \<or> isSent r
          \<longrightarrow> r \<notin> fst ` set (getMessagesForQueuing t w))"
proof -
  have fst_pop: "map fst (map (populate us) rs) = rs" for us rs
    by (induction rs) (simp_all add: populate_def)
  have sel: "readyForQueuing t =
      (\<lambda>r. sendDate r \<le> t \<and> \<not> isQueued r \<and> \<not> isSent r \<and> retryCount r < 3)" for t
    by (rule ext) (simp add: readyForQueuing_def)
  have q: "map fst (getMessagesForQueuing t w) =
      filter (\<lambda>r. sendDate r \<le> t \<and> \<not> isQueued r \<and> \<not> isSent r \<and> retryCount r < 3)
        (autoMessages w)" for t
    by (simp only: getMessagesForQueuing_def fst_pop sel)
  have "r \<notin> fst ` set (getMessagesForQueuing t w)"
    if "retryCount r \<ge> 3 \<or> isQueued r \<or> isSent r" for r t
  proof -
    have "r \<notin> set (map fst (getMessagesForQueuing t w))"
      unfolding q using that by auto
    then show ?thesis by simp
  qed
  with q show ?thesis by blast
qed

theorem getMessagesForQueuing_exact_witness:
  "map fst (getMessagesForQueuing 2000
     (example_world\<lparr>autoMessages :=
        [example_record, example_record\<lparr>am_id := 2, retryCount := 3\<rparr>,
         example_record\<lparr>am_id := 3, isQueued := True\<rparr>,
         example_record\<lparr>am_id := 4, isSent := True\<rparr>,
         example_record\<lparr>am_id := 5, sendDate := 2001\<rparr>]\<rparr>)) = [example_record]
   \<and> example_record\<lparr>am_id := 2, retryCount := 3\<rparr> \<notin>
       fst ` set (getMessagesForQueuing 5000
         (example_world\<lparr>autoMessages := [example_record\<lparr>am_id := 2, retryCount := 3\<rparr>]\<rparr>))"
  using getMessagesForQueuing_exact [of 5000
      "example_world\<lparr>autoMessages := [example_record\<lparr>am_id := 2, retryCount := 3\<rparr>]\<rparr>"]
  by (simp add: getMessagesForQueuing_def readyForQueuing_def populate_def
      example_record_def example_world_def)

text \<open>
  C8. The retention sweep deletes exactly the records that are sent and whose
  \<open>createdAt\<close> lies more than 30 days back, the days being those of the calendar of
  the process's time zone: the cut-off is 30 times 24 hours before the sweep, moved by
  the change of the zone's offset between the two dates, and is exactly 30 times 24
  hours before it when the offset is the same on both. Whenever that change is less
  than a day, a sent record created 31 days ago is deleted and a sent record created
  29 days ago is kept; a record that is not sent is kept whatever its age.
\<close>

theorem cleanupOldMessages_exact:
  assumes "f AutoDeleteMany = None"
  shows "autoMessages (cleanupOldMessages f tza now w) =
       filter (\<lambda>r. \<not> (isSent r \<and> createdAt r < now - 30 * dayMs + zoneShift tza now))
         (autoMessages w)
   \<and> (zoneShift tza now = 0 \<longrightarrow>
        autoMessages (cleanupOldMessages f tza now w) =
          filter (\<lambda>r. \<not> (isSent r \<and> createdAt r < now - 30 * dayMs)) (autoMessages w))
   \<and> (\<bar>zoneShift tza now\<bar> < dayMs \<and> isSent r \<and> createdAt r = now - 31 * dayMs
        \<longrightarrow> r \<notin> set (autoMessages (cleanupOldMessages f tza now w)))
   \<and> (\<bar>zoneShift tza now\<bar> < dayMs \<and> r \<in> set (autoMessages w) \<and> isSent r
          \<and> createdAt r = now - 29 * dayMs
        \<longrightarrow> r \<in> set (autoMessages (cleanupOldMessages f tza now w)))
   \<and> (r \<in> set (autoMessages w) \<and> \<not> isSent r
        \<longrightarrow> r \<in> set (autoMessages (cleanupOldMessages f tza now w)))"
proof -
  have cut: "thirtyDaysAgo tza now = now - 30 * dayMs + zoneShift tza now"
    by (simp add: thirtyDaysAgo_def zoneShift_def Let_def)
  have eq: "(\<lambda>r. \<not> cleanupMatch tza now r)
      = (\<lambda>r. \<not> (isSent r \<and> createdAt r < now - 30 * dayMs + zoneShift tza now))"
    by (auto simp: cleanupMatch_def cut)
  have sweep: "autoMessages (cleanupOldMessages f tza now w) =
      filter (\<lambda>r. \<not> (isSent r \<and> createdAt r < now - 30 * dayMs + zoneShift tza now))
        (autoMessages w)"
    using assms by (simp add: cleanupOldMessages_def eq)
  have d: "0 < dayMs" by (simp add: dayMs_def)
  show ?thesis
    unfolding sweep using d by auto
qed

text \<open>
  A zone whose offset goes from UTC-5 to UTC-4 between the two dates (\<open>dst_zone\<close>)
  and the zone UTC (\<open>utc_zone\<close>): in the first, a sent record created 29 days and 23
  and a half hours before the sweep is deleted.
\<close>

theorem cleanupOldMessages_exact_witness:
  "no_faults AutoDeleteMany = None \<and> zoneShift utc_zone (40 * dayMs) = 0
   \<and> \<bar>zoneShift dst_zone (40 * dayMs)\<bar> < dayMs
   \<and> autoMessages (cleanupOldMessages no_faults utc_zone (40 * dayMs)
       (example_world\<lparr>autoMessages :=
          [example_record\<lparr>am_id := 1, isSent := True, createdAt := 9 * dayMs\<rparr>,
           example_record\<lparr>am_id := 2, isSent := True, createdAt := 11 * dayMs\<rparr>,
           example_record\<lparr>am_id := 3, isSent := False, createdAt := 0\<rparr>]\<rparr>))
     = [example_record\<lparr>am_id := 2, isSent := True, createdAt := 11 * dayMs\<rparr>,
        example_record\<lparr>am_id := 3, isSent := False, createdAt := 0\<rparr>]
   \<and> autoMessages (cleanupOldMessages no_faults dst_zone (40 * dayMs)
       (example_world\<lparr>autoMessages :=
          [example_record\<lparr>am_id := 1, isSent := True, createdAt := 9 * dayMs\<rparr>,
           example_record\<lparr>am_id := 2, isSent := True, createdAt := 11 * dayMs\<rparr>,
           example_record\<lparr>am_id := 4, isSent := True, createdAt := 10 * dayMs + 1800000\<rparr>]\<rparr>))
     = [example_record\<lparr>am_id := 2, isSent := True, createdAt := 11 * dayMs\<rparr>]"
proof -
  have nf: "no_faults AutoDeleteMany = None" by (simp add: no_faults_def)
  have z: "zoneShift utc_zone (40 * dayMs) = 0" by (simp add: zoneShift_def utc_zone_def)
  have zd: "zoneShift dst_zone (40 * dayMs) = 3600000"
    by (simp add: zoneShift_def dst_zone_def dayMs_def)
  show ?thesis
    using nf z zd
      cleanupOldMessages_exact [of no_faults utc_zone "40 * dayMs"
        "example_world\<lparr>autoMessages :=
          [example_record\<lparr>am_id := 1, isSent := True, createdAt := 9 * dayMs\<rparr>,
           example_record\<lparr>am_id := 2, isSent := True, createdAt := 11 * dayMs\<rparr>,
           example_record\<lparr>am_id := 3, isSent := False, createdAt := 0\<rparr>]\<rparr>"
        example_record]
      cleanupOldMessages_exact [of no_faults dst_zone "40 * dayMs"
        "example_world\<lparr>autoMessages :=
          [example_record\<lparr>am_id := 1, isSent := True, createdAt := 9 * dayMs\<rparr>,
           example_record\<lparr>am_id := 2, isSent := True, createdAt := 11 * dayMs\<rparr>,
           example_record\<lparr>am_id := 4, isSent := True, createdAt := 10 * dayMs + 1800000\<rparr>]\<rparr>"
        example_record]
    by (simp add: dayMs_def example_record_def example_world_def)
qed

section \<open>Properties of the planner\<close>

text \<open>The date drawn lies in the window that starts at the clock reading it is given.\<close>

lemma getRandomSendDate_window:
  assumes "rng_ok g"
  shows "now < fst (getRandomSendDate now g k)
    \<and> now + 1 * 60 * 60 * 1000 \<le> fst (getRandomSendDate now g k)
    \<and> fst (getRandomSendDate now g k) < now + 25 * 60 * 60 * 1000"
proof -
  define h where "h = \<lfloor>g k * 24\<rfloor>"
  define m where "m = \<lfloor>g (k + 1) * 60\<rfloor>"
  have g1: "0 \<le> g k" "g k < 1" and g2: "0 \<le> g (k + 1)" "g (k + 1) < 1"
    using assms by (simp_all add: rng_ok_def)
  have "0 \<le> g k * 24" "g k * 24 < 24" using g1 by simp_all
  then have hb: "0 \<le> h" "h < 24"
    unfolding h_def by (simp_all add: floor_less_iff)
  have "0 \<le> g (k + 1) * 60" "g (k + 1) * 60 < 60" using g2 by simp_all
  then have mb: "0 \<le> m" "m < 60"
    unfolding m_def by (simp_all add: floor_less_iff)
  have eq: "fst (getRandomSendDate now g k) = now + (h + 1) * 3600000 + m * 60000"
    by (simp add: getRandomSendDate_def Let_def h_def m_def)
  show ?thesis
    unfolding eq using hb mb by simp
qed

subsection \<open>The shuffle is a permutation\<close>

lemma randomInt_le: "rng_ok g \<Longrightarrow> randomInt g k (Suc i) \<le> i"
proof -
  assume a: "rng_ok g"
  then have "0 \<le> g k" "g k < 1" by (simp_all add: rng_ok_def)
  then have "g k * of_nat (Suc i) < of_nat (Suc i)" by simp
  then have "\<lfloor>g k * of_nat (Suc i)\<rfloor> < int (Suc i)"
    by (simp add: floor_less_iff)
  then show ?thesis by (simp add: randomInt_def)
qed

lemma shuffle_loop_mset:
  "rng_ok g \<Longrightarrow> i < length s \<Longrightarrow> mset (fst (shuffle_loop g k s i)) = mset s"
proof (induction i arbitrary: k s)
  case 0
  then show ?case by simp
next
  case (Suc i)
  have j: "randomInt g k (Suc (Suc i)) \<le> Suc i" using Suc.prems(1) by (rule randomInt_le)
  show ?case using Suc j
    by (simp add: Let_def mset_swap)
qed

lemma shuffleArray_mset: "rng_ok g \<Longrightarrow> mset (fst (shuffleArray g k xs)) = mset xs"
  by (cases xs) (simp_all add: shuffleArray_def shuffle_loop_mset)

lemma pair_loop_pairsOf: "pair_loop s i acc = acc @ pairsOf (drop i s)"
proof (induction s i acc rule: pair_loop.induct)
  case (1 s i acc)
  show ?case
  proof (cases "i < length s - 1")
    case True
    then have lt: "i + 1 < length s" "i < length s" by simp_all
    have d: "drop i s = s ! i # s ! (i + 1) # drop (i + 2) s"
      using lt by (simp add: Cons_nth_drop_Suc)
    have "pair_loop s i acc = pair_loop s (i + 2) (acc @ [(s ! i, s ! (i + 1))])"
      using True lt by (subst pair_loop.simps) simp
    also have "\<dots> = (acc @ [(s ! i, s ! (i + 1))]) @ pairsOf (drop (i + 2) s)"
      using "1.IH" [OF True] lt by simp
    finally show ?thesis by (simp add: d)
  next
    case False
    then have "length (drop i s) \<le> 1" by simp
    then have "pairsOf (drop i s) = []"
      by (cases "drop i s" rule: pairsOf.cases) simp_all
    moreover have "pair_loop s i acc = acc"
      using False by (subst pair_loop.simps) simp
    ultimately show ?thesis by simp
  qed
qed

lemma length_pairsOf: "length (pairsOf xs) = length xs div 2"
  by (induction xs rule: pairsOf.induct) simp_all

lemma slots_pairsOf: "slots (pairsOf xs) = take (2 * (length xs div 2)) xs"
  by (induction xs rule: pairsOf.induct) (simp_all add: slots_def)

lemma pairsOf_map: "pairsOf (map h xs) = map (map_prod h h) (pairsOf xs)"
  by (induction xs rule: pairsOf.induct) simp_all

lemma set_slots_pairsOf: "set (slots (pairsOf xs)) \<subseteq> set xs"
  unfolding slots_pairsOf by (rule set_take_subset)

lemma slots_Cons: "slots ((a, b) # ps) = a # b # slots ps"
  by (simp add: slots_def)

lemma cnt_Cons: "cnt u ((a, b) # ps) = (if a = u \<or> b = u then 1 else 0) + cnt u ps"
  by (simp add: cnt_def)

lemma cnt_pairsOf:
  "distinct xs \<Longrightarrow> cnt u (pairsOf xs) = (if u \<in> set (slots (pairsOf xs)) then 1 else 0)"
proof (induction xs rule: pairsOf.induct)
  case (1 a b rest)
  have sub: "set (slots (pairsOf rest)) \<subseteq> set rest" by (rule set_slots_pairsOf)
  have ih: "cnt u (pairsOf rest) = (if u \<in> set (slots (pairsOf rest)) then 1 else 0)"
    using 1 by simp
  have ab: "a \<noteq> b" "a \<notin> set rest" "b \<notin> set rest" using 1(2) by auto
  show ?case
  proof (cases "u \<in> set (slots (pairsOf rest))")
    case True
    then have "u \<in> set rest" using sub by blast
    then have "a \<noteq> u" "b \<noteq> u" using ab by auto
    then show ?thesis using True ih by (simp add: cnt_Cons slots_Cons)
  next
    case False
    then show ?thesis using ih ab by (auto simp: cnt_Cons slots_Cons)
  qed
qed (simp_all add: cnt_def slots_def)

lemma pairsOf_neq: "distinct xs \<Longrightarrow> (a, b) \<in> set (pairsOf xs) \<Longrightarrow> a \<noteq> b"
proof (induction xs rule: pairsOf.induct)
  case (1 x y rest)
  then show ?case by auto
qed simp_all

lemma makePairs_pairsOf:
  "xs \<noteq> [] \<Longrightarrow> makePairs xs = pairsOf xs @ (if odd (length xs) then [(last xs, hd xs)] else [])"
  by (simp add: makePairs_def pair_loop_pairsOf Let_def last_conv_nth hd_conv_nth odd_iff_mod_2_eq_one)

lemma cnt_Nil: "cnt u [] = 0"
  by (simp add: cnt_def)

lemma cnt_append: "cnt u (ps @ qs) = cnt u ps + cnt u qs"
  by (simp add: cnt_def)

lemma length_makePairs: "xs \<noteq> [] \<Longrightarrow> length (makePairs xs) = (length xs + 1) div 2"
  by (auto simp: makePairs_pairsOf length_pairsOf elim: oddE)

lemma makePairs_map: "xs \<noteq> [] \<Longrightarrow> makePairs (map h xs) = map (map_prod h h) (makePairs xs)"
  by (simp add: makePairs_pairsOf pairsOf_map last_map hd_map)

lemma makePairs_neq:
  assumes "distinct xs" "2 \<le> length xs" "(a, b) \<in> set (makePairs xs)"
  shows "a \<noteq> b"
proof -
  have ne: "xs \<noteq> []" using assms(2) by auto
  have hl: "last xs \<noteq> hd xs"
  proof -
    have "xs ! (length xs - 1) \<noteq> xs ! 0"
      using assms(1,2) ne nth_eq_iff_index_eq [of xs "length xs - 1" 0] by simp
    then show ?thesis using ne by (simp add: last_conv_nth hd_conv_nth)
  qed
  from assms(3) have "(a, b) \<in> set (pairsOf xs) \<or> (a, b) = (last xs, hd xs)"
    by (auto simp: makePairs_pairsOf [OF ne] split: if_splits)
  then show ?thesis using pairsOf_neq [OF assms(1)] hl by auto
qed

lemma cnt_makePairs_even:
  assumes "distinct xs" "even (length xs)" "u \<in> set xs"
  shows "cnt u (makePairs xs) = 1"
proof -
  have ne: "xs \<noteq> []" using assms(3) by auto
  have "2 * (length xs div 2) = length xs" using assms(2) by simp
  then have "slots (pairsOf xs) = xs" by (simp add: slots_pairsOf)
  then show ?thesis
    using assms by (simp add: makePairs_pairsOf [OF ne] cnt_pairsOf)
qed

lemma cnt_makePairs_odd:
  assumes "distinct xs" "odd (length xs)" "2 \<le> length xs" "u \<in> set xs"
  shows "cnt u (makePairs xs) = (if u = hd xs then 2 else 1)"
proof -
  have ne: "xs \<noteq> []" using assms(4) by auto
  have "2 * (length xs div 2) = length xs - 1" using assms(2) by (auto elim: oddE)
  then have sl: "slots (pairsOf xs) = butlast xs" by (simp add: slots_pairsOf butlast_conv_take)
  have d: "distinct (butlast xs @ [last xs])" using assms(1) ne by simp
  have last_notin: "last xs \<notin> set (butlast xs)"
    using d unfolding distinct_append by simp
  have hd_in: "hd xs \<in> set (butlast xs)"
  proof -
    obtain a b rest where "xs = a # b # rest"
      using assms(3) by (cases xs; cases "tl xs") auto
    then show ?thesis by simp
  qed
  have sx: "set xs = insert (last xs) (set (butlast xs))"
  proof -
    have "set (butlast xs @ [last xs]) = insert (last xs) (set (butlast xs))"
      by (simp del: append_butlast_last_id)
    then show ?thesis using ne by simp
  qed
  have mem: "u \<in> set (butlast xs) \<longleftrightarrow> u \<noteq> last xs"
    using assms(4) last_notin sx by auto
  have hl: "hd xs \<noteq> last xs" using hd_in last_notin by auto
  have "cnt u (makePairs xs) = cnt u (pairsOf xs) + cnt u [(last xs, hd xs)]"
    using assms(2) by (simp add: makePairs_pairsOf [OF ne] cnt_append)
  also have "\<dots> = (if u \<noteq> last xs then 1 else 0) + (if last xs = u \<or> hd xs = u then 1 else 0)"
    using assms(1) by (simp add: cnt_pairsOf sl mem cnt_Cons cnt_Nil)
  finally show ?thesis using hl by auto
qed

lemma appearances_cnt: "appearances u rs = cnt u (map (\<lambda>r. (sender r, receiver r)) rs)"
  by (simp add: appearances_def cnt_def filter_map comp_def)

lemma insertDocs_append:
  "\<exists>new. insertDocs clk c ds coll = coll @ new
     \<and> map (\<lambda>r. (sender r, receiver r)) new = map (\<lambda>d. (n_sender d, n_receiver d)) ds
     \<and> map sendDate new = map n_sendDate ds
     \<and> map createdAt new = map clk [c ..< c + length ds]"
proof (induction ds arbitrary: c coll)
  case Nil
  then show ?case by simp
next
  case (Cons d ds)
  let ?doc = "createDoc (clk c) (nextId (map am_id coll)) d"
  obtain new where n: "insertDocs clk (c + 1) ds (coll @ [?doc]) = (coll @ [?doc]) @ new"
     "map (\<lambda>r. (sender r, receiver r)) new = map (\<lambda>d. (n_sender d, n_receiver d)) ds"
     "map sendDate new = map n_sendDate ds"
     "map createdAt new = map clk [c + 1 ..< c + 1 + length ds]"
    using Cons.IH [of "c + 1" "coll @ [?doc]"] by blast
  have "[c ..< c + length (d # ds)] = c # [Suc c ..< c + length (d # ds)]"
    by (rule upt_conv_Cons) simp
  moreover have "c + length (d # ds) = c + 1 + length ds" "Suc c = c + 1" by simp_all
  ultimately have u: "[c ..< c + length (d # ds)] = c # [c + 1 ..< c + 1 + length ds]"
    by metis
  show ?case
  proof (intro exI conjI)
    show "insertDocs clk c (d # ds) coll = coll @ (?doc # new)"
      using n(1) by simp
    show "map (\<lambda>r. (sender r, receiver r)) (?doc # new)
        = map (\<lambda>d. (n_sender d, n_receiver d)) (d # ds)"
      using n(2) by (simp add: createDoc_def)
    show "map sendDate (?doc # new) = map n_sendDate (d # ds)"
      using n(3) by (simp add: createDoc_def)
    show "map createdAt (?doc # new) = map clk [c ..< c + length (d # ds)]"
      unfolding u using n(4) by (simp add: createDoc_def)
  qed
qed

lemma build_pairs:
  "map (\<lambda>d. (n_sender d, n_receiver d)) (fst (buildAutoMessages clk c g k ps))
     = map (map_prod u_id u_id) ps"
proof (induction ps arbitrary: k c)
  case Nil
  then show ?case by simp
next
  case (Cons p ps)
  obtain tx k1 where tx: "getRandomMessage g k = (tx, k1)" by force
  obtain d k2 where d: "getRandomSendDate (clk c) g k1 = (d, k2)" by force
  obtain ms k3 c3 where ms: "buildAutoMessages clk (Suc c) g k2 ps = (ms, k3, c3)"
    by (metis prod_cases3)
  have "map (\<lambda>d. (n_sender d, n_receiver d)) ms = map (map_prod u_id u_id) ps"
    using Cons.IH [of "Suc c" k2] ms by simp
  then show ?case by (cases p) (simp add: tx d ms)
qed

lemma build_dates:
  "length (fst (buildAutoMessages clk c g k ps)) = length ps
   \<and> snd (snd (buildAutoMessages clk c g k ps)) = c + length ps
   \<and> (\<forall>i < length ps. \<exists>k'. n_sendDate (fst (buildAutoMessages clk c g k ps) ! i)
          = fst (getRandomSendDate (clk (c + i)) g k'))"
proof (induction ps arbitrary: k c)
  case Nil
  then show ?case by simp
next
  case (Cons p ps)
  obtain tx k1 where tx: "getRandomMessage g k = (tx, k1)" by force
  obtain d k2 where d: "getRandomSendDate (clk c) g k1 = (d, k2)" by force
  obtain ms k3 c3 where ms: "buildAutoMessages clk (Suc c) g k2 ps = (ms, k3, c3)"
    by (metis prod_cases3)
  have ih: "length ms = length ps" "c3 = Suc c + length ps"
      "\<forall>i < length ps. \<exists>k'. n_sendDate (ms ! i) = fst (getRandomSendDate (clk (Suc c + i)) g k')"
    using Cons.IH [of "Suc c" k2] ms by simp_all
  have b: "buildAutoMessages clk c g k (p # ps)
      = (\<lparr>n_sender = u_id (fst p), n_receiver = u_id (snd p), n_content = tx, n_sendDate = d\<rparr>
           # ms, k3, c3)"
    by (simp add: tx d ms)
  have "\<exists>k'. n_sendDate ((\<lparr>n_sender = u_id (fst p), n_receiver = u_id (snd p), n_content = tx,
          n_sendDate = d\<rparr> # ms) ! i) = fst (getRandomSendDate (clk (c + i)) g k')"
    if "i < length (p # ps)" for i
  proof (cases i)
    case 0
    then show ?thesis using d by (intro exI [of _ k1]) simp
  next
    case (Suc n)
    then have "n < length ps" using that by simp
    then show ?thesis using ih(3) Suc by simp
  qed
  then show ?case unfolding b using ih(1,2) by simp
qed

lemma templates_ok:
  "\<forall>t \<in> set AUTO_MESSAGE_TEMPLATES. t \<noteq> [] \<and> \<not> is_space (hd t) \<and> \<not> is_space (last t) \<and> length t \<le> 1000"
  unfolding AUTO_MESSAGE_TEMPLATES_def by (simp add: is_space_def ascii_def)

lemma templates_valid:
  "t \<in> set AUTO_MESSAGE_TEMPLATES \<Longrightarrow> validateContent m (trim t) = None"
  using templates_ok by (auto simp: trim_id validateContent_def)

lemma getRandomMessage_valid:
  assumes "rng_ok g"
  shows "validateContent m (trim (fst (getRandomMessage g k))) = None"
proof -
  have len: "length AUTO_MESSAGE_TEMPLATES = 15"
    by (simp add: AUTO_MESSAGE_TEMPLATES_def)
  have "randomInt g k 15 \<le> 14" using randomInt_le [OF assms, of k 14] by simp
  then have "randomInt g k (length AUTO_MESSAGE_TEMPLATES) < length AUTO_MESSAGE_TEMPLATES"
    by (simp only: len)
  then have "fst (getRandomMessage g k) \<in> set AUTO_MESSAGE_TEMPLATES"
    by (simp add: getRandomMessage_def Let_def)
  then show ?thesis by (rule templates_valid)
qed

lemma build_valid: "rng_ok g \<Longrightarrow> validateAll (fst (buildAutoMessages clk c g k ps)) = None"
proof (induction ps arbitrary: k c)
  case Nil
  then show ?case by simp
next
  case (Cons p ps)
  obtain tx k1 where tx: "getRandomMessage g k = (tx, k1)" by force
  obtain d k2 where d: "getRandomSendDate (clk c) g k1 = (d, k2)" by force
  obtain ms k3 c3 where ms: "buildAutoMessages clk (Suc c) g k2 ps = (ms, k3, c3)"
    by (metis prod_cases3)
  have "validateContent ''AutoMessage'' (trim tx) = None"
    using getRandomMessage_valid [OF Cons.prems, of "''AutoMessage''" k] tx by simp
  moreover have "validateAll ms = None" using Cons.IH [OF Cons.prems, of "Suc c" k2] ms by simp
  ultimately show ?case by (simp add: tx d ms)
qed

subsection \<open>The records of a run\<close>

lemma created_by_run:
  assumes g: "rng_ok g" and f: "f UserFind = None" "f AutoInsertMany = None"
    and n: "2 \<le> length (filter isActive (users w))"
  shows "\<exists>created. autoMessages (createAutoMessages f g clk w) = autoMessages w @ created
     \<and> map (\<lambda>r. (sender r, receiver r)) created =
         makePairs (map u_id (fst (shuffleArray g 0 (filter isActive (users w)))))
     \<and> (\<forall>i < length created. \<exists>k'. sendDate (created ! i) = fst (getRandomSendDate (clk i) g k'))
     \<and> map createdAt created = map clk [length created ..< length created + length created]"
proof -
  define active where "active = filter isActive (users w)"
  obtain sh k where sh: "shuffleArray g 0 active = (sh, k)" by force
  obtain docs k' c where docs: "buildAutoMessages clk 0 g k (makePairs sh) = (docs, k', c)"
    by (metis prod_cases3)
  have "mset sh = mset active" using shuffleArray_mset [OF g, of 0 active] sh by simp
  then have "length sh = length active" by (metis size_mset)
  then have ne: "sh \<noteq> []" using n by (auto simp: active_def)
  have valid: "validateAll docs = None"
    using build_valid [OF g, of clk 0 k "makePairs sh"] docs by simp
  have bd: "length docs = length (makePairs sh)" "c = length (makePairs sh)"
      "\<forall>i < length (makePairs sh). \<exists>k'. n_sendDate (docs ! i) = fst (getRandomSendDate (clk i) g k')"
    using build_dates [of clk 0 g k "makePairs sh"] docs by simp_all
  have run: "createAutoMessages f g clk w
      = w\<lparr>autoMessages := insertDocs clk c docs (autoMessages w)\<rparr>"
    using f n valid
    by (simp add: createAutoMessages_def Let_def active_def [symmetric] sh docs insertMany_def)
  obtain new where new: "insertDocs clk c docs (autoMessages w) = autoMessages w @ new"
      "map (\<lambda>r. (sender r, receiver r)) new = map (\<lambda>d. (n_sender d, n_receiver d)) docs"
      "map sendDate new = map n_sendDate docs"
      "map createdAt new = map clk [c ..< c + length docs]"
    using insertDocs_append by blast
  have ln: "length new = length docs" using new(3) by (metis length_map)
  have "map (\<lambda>d. (n_sender d, n_receiver d)) docs = map (map_prod u_id u_id) (makePairs sh)"
    using build_pairs [of clk 0 g k "makePairs sh"] docs by simp
  also have "\<dots> = makePairs (map u_id sh)" using ne by (simp add: makePairs_map)
  finally have pairs: "map (\<lambda>r. (sender r, receiver r)) new = makePairs (map u_id sh)"
    using new(2) by simp
  have dates: "\<exists>k'. sendDate (new ! i) = fst (getRandomSendDate (clk i) g k')"
    if "i < length new" for i
  proof -
    have "sendDate (new ! i) = n_sendDate (docs ! i)"
      using that ln new(3) by (metis nth_map)
    then show ?thesis using bd(1,3) that ln by simp
  qed
  have stamps: "map createdAt new = map clk [length new ..< length new + length new]"
    using new(4) bd(1,2) ln by simp
  show ?thesis
    using run new(1) sh pairs dates stamps by (auto simp: active_def)
qed

text \<open>
  C6. With \<open>N\<close> active users, \<open>N \<ge> 2\<close>, a run of the planner that reaches the
  database creates exactly \<open>\<lceil>N/2\<rceil>\<close> records, each with a sender different from
  its receiver; for even \<open>N\<close> every active user stands in exactly one of them, for odd
  \<open>N\<close> the first user of the permutation stands in two, the second of them being
  the last record, which pairs the last user with the first, and every other user
  stands in one; for \<open>N < 2\<close> the run changes nothing.
\<close>

theorem createAutoMessages_pairs:
  assumes g: "rng_ok g" and d: "distinct (map u_id (users w))"
    and f: "f UserFind = None" "f AutoInsertMany = None"
  shows "\<exists>created.
      autoMessages (createAutoMessages f g clk w) = autoMessages w @ created
    \<and> (let N = length (filter isActive (users w));
            ids = set (map u_id (filter isActive (users w)))
       in (N < 2 \<longrightarrow> createAutoMessages f g clk w = w)
        \<and> (2 \<le> N \<longrightarrow> length created = (N + 1) div 2
              \<and> (\<forall>r \<in> set created. sender r \<noteq> receiver r))
        \<and> (2 \<le> N \<and> even N \<longrightarrow> (\<forall>u \<in> ids. appearances u created = 1))
        \<and> (2 \<le> N \<and> odd N \<longrightarrow>
              (let perm = fst (shuffleArray g 0 (filter isActive (users w)));
                   v = u_id (hd perm)
               in v \<in> ids \<and> appearances v created = 2
                  \<and> (\<forall>u \<in> ids. u \<noteq> v \<longrightarrow> appearances u created = 1)
                  \<and> sender (last created) = u_id (last perm)
                  \<and> receiver (last created) = v)))"
proof (cases "2 \<le> length (filter isActive (users w))")
  case False
  then have "createAutoMessages f g clk w = w"
    using f by (simp add: createAutoMessages_def Let_def)
  then show ?thesis using False by (intro exI [of _ "[]"]) (simp add: Let_def)
next
  case True
  define active where "active = filter isActive (users w)"
  define xs where "xs = map u_id (fst (shuffleArray g 0 active))"
  obtain created where c: "autoMessages (createAutoMessages f g clk w) = autoMessages w @ created"
      "map (\<lambda>r. (sender r, receiver r)) created = makePairs xs"
    using created_by_run [OF g f True] unfolding xs_def active_def by blast
  have ms: "mset xs = mset (map u_id active)"
    unfolding xs_def using shuffleArray_mset [OF g, of 0 active] by (metis mset_map)
  have dx: "distinct xs"
    using ms d by (metis active_def distinct_map_filter mset_eq_imp_distinct_iff)
  have lx: "length xs = length active" using ms by (metis size_mset length_map)
  have sx: "set xs = set (map u_id active)" using ms by (metis set_mset_mset)
  have n2: "2 \<le> length xs" using True lx by (simp add: active_def)
  have ne: "xs \<noteq> []" using n2 by auto
  have app: "appearances u created = cnt u (makePairs xs)" for u
    by (simp add: appearances_cnt c(2))
  have len: "length created = (length xs + 1) div 2"
    using length_makePairs [OF ne] c(2) by (metis length_map)
  have neq: "sender r \<noteq> receiver r" if "r \<in> set created" for r
  proof -
    have "(sender r, receiver r) \<in> set (makePairs xs)"
      using that c(2) by (metis (mono_tags, lifting) image_eqI set_map)
    then show ?thesis by (rule makePairs_neq [OF dx n2])
  qed
  have ev: "appearances u created = 1" if "even (length xs)" "u \<in> set xs" for u
    using that by (simp add: app cnt_makePairs_even [OF dx])
  have od: "appearances u created = (if u = hd xs then 2 else 1)"
    if "odd (length xs)" "u \<in> set xs" for u
    unfolding app using that by (intro cnt_makePairs_odd [OF dx _ n2])
  have hd_in: "hd xs \<in> set xs" using ne by simp
  have pne: "fst (shuffleArray g 0 active) \<noteq> []" using ne by (auto simp: xs_def)
  have hdx: "hd xs = u_id (hd (fst (shuffleArray g 0 active)))"
    and lastx: "last xs = u_id (last (fst (shuffleArray g 0 active)))"
    using pne by (simp_all add: xs_def hd_map last_map)
  have wrap: "sender (last created) = last xs \<and> receiver (last created) = hd xs"
    if "odd (length xs)"
  proof -
    have cne: "created \<noteq> []" using len n2 by auto
    have "map (\<lambda>r. (sender r, receiver r)) created = pairsOf xs @ [(last xs, hd xs)]"
      using that c(2) by (simp add: makePairs_pairsOf [OF ne])
    then have "last (map (\<lambda>r. (sender r, receiver r)) created) = (last xs, hd xs)" by simp
    then show ?thesis using cne by (simp add: last_map)
  qed
  have odd_part: "hd xs \<in> set xs \<and> appearances (hd xs) created = 2
      \<and> (\<forall>u \<in> set xs. u \<noteq> hd xs \<longrightarrow> appearances u created = 1)
      \<and> sender (last created) = last xs \<and> receiver (last created) = hd xs"
    if "odd (length xs)"
    using od [OF that] hd_in wrap [OF that] by auto
  show ?thesis
    using c(1) len neq ev odd_part True
    unfolding Let_def lx [unfolded active_def] sx [unfolded active_def]
      hdx [unfolded active_def] lastx [unfolded active_def]
    by (intro exI [of _ created]) auto
qed

theorem createAutoMessages_pairs_witness:
  "rng_ok (\<lambda>k. 1 / 2) \<and> distinct (map u_id (users three_users))
   \<and> no_faults UserFind = None \<and> no_faults AutoInsertMany = None
   \<and> fst (shuffleArray (\<lambda>k. 1 / 2) 0 (filter isActive (users three_users)))
       = [example_user 1, example_user 3, example_user 2]
   \<and> (\<exists>created.
        autoMessages (createAutoMessages no_faults (\<lambda>k. 1 / 2) tick_clock three_users)
          = autoMessages three_users @ created
      \<and> length created = 2
      \<and> (\<forall>r \<in> set created. sender r \<noteq> receiver r)
      \<and> appearances 1 created = 2 \<and> appearances 2 created = 1 \<and> appearances 3 created = 1
      \<and> sender (last created) = 2 \<and> receiver (last created) = 1)"
proof -
  have g: "rng_ok (\<lambda>k. 1 / 2)" by (simp add: rng_ok_def)
  have d: "distinct (map u_id (users three_users))"
    by (simp add: three_users_def example_world_def example_user_def)
  have f: "no_faults UserFind = None" "no_faults AutoInsertMany = None"
    by (simp_all add: no_faults_def)
  have act: "filter isActive (users three_users) = [example_user 1, example_user 2, example_user 3]"
    by (simp add: three_users_def example_world_def example_user_def)
  have ids: "set (map u_id [example_user 1, example_user 2, example_user 3]) = {1, 2, 3}"
    by (auto simp: example_user_def)
  have N3: "length (filter isActive (users three_users)) = 3" by (simp add: act)
  have perm: "fst (shuffleArray (\<lambda>k. 1 / 2) 0 [example_user 1, example_user 2, example_user 3])
      = [example_user 1, example_user 3, example_user 2]"
  proof -
    have fl: "\<lfloor>(3::rat) / 2\<rfloor> = 1" by (simp add: floor_eq_iff)
    have j: "randomInt (\<lambda>k. 1 / 2) 0 (Suc (Suc 0) + 1) = Suc 0"
        "randomInt (\<lambda>k. 1 / 2) (0 + 1) (Suc 0 + 1) = Suc 0"
      by (simp_all add: randomInt_def fl)
    have "shuffle_loop (\<lambda>k. 1 / 2) 0 [example_user 1, example_user 2, example_user 3] (Suc (Suc 0))
        = ([example_user 1, example_user 3, example_user 2], 0 + 1 + 1)"
      by (simp only: shuffle_loop.simps Let_def j) simp
    then show ?thesis by (simp add: shuffleArray_def numeral_2_eq_2)
  qed
  from createAutoMessages_pairs [OF g d f, of tick_clock] obtain created where
    c: "autoMessages (createAutoMessages no_faults (\<lambda>k. 1 / 2) tick_clock three_users)
         = autoMessages three_users @ created" and
    r: "let N = length (filter isActive (users three_users));
            ids = set (map u_id (filter isActive (users three_users)))
        in (N < 2 \<longrightarrow> createAutoMessages no_faults (\<lambda>k. 1 / 2) tick_clock three_users = three_users)
        \<and> (2 \<le> N \<longrightarrow> length created = (N + 1) div 2
              \<and> (\<forall>r \<in> set created. sender r \<noteq> receiver r))
        \<and> (2 \<le> N \<and> even N \<longrightarrow> (\<forall>u \<in> ids. appearances u created = 1))
        \<and> (2 \<le> N \<and> odd N \<longrightarrow>
              (let perm = fst (shuffleArray (\<lambda>k. 1 / 2) 0 (filter isActive (users three_users)));
                   v = u_id (hd perm)
               in v \<in> ids \<and> appearances v created = 2
                  \<and> (\<forall>u \<in> ids. u \<noteq> v \<longrightarrow> appearances u created = 1)
                  \<and> sender (last created) = u_id (last perm)
                  \<and> receiver (last created) = v))"
    by (elim exE conjE) (rule that, assumption+)
  have r3: "length created = 2 \<and> (\<forall>r \<in> set created. sender r \<noteq> receiver r)
      \<and> appearances 1 created = 2 \<and> appearances 2 created = 1 \<and> appearances 3 created = 1
      \<and> sender (last created) = 2 \<and> receiver (last created) = 1"
    using r unfolding Let_def N3 unfolding act ids perm by (simp add: example_user_def)
  show ?thesis
    by (intro conjI exI [of _ created]) (use g d f c r3 perm act in simp_all)
qed

subsection \<open>The send date of a created record\<close>

lemma run_length:
  assumes g: "rng_ok g" and f: "f UserFind = None" "f AutoInsertMany = None"
    and n: "2 \<le> length (filter isActive (users w))"
    and c: "autoMessages (createAutoMessages f g clk w) = autoMessages w @ created"
  shows "length created = (length (filter isActive (users w)) + 1) div 2"
proof -
  define active where "active = filter isActive (users w)"
  obtain created' where c': "autoMessages (createAutoMessages f g clk w) = autoMessages w @ created'"
      "map (\<lambda>r. (sender r, receiver r)) created' =
         makePairs (map u_id (fst (shuffleArray g 0 active)))"
    using created_by_run [OF g f n] unfolding active_def by blast
  have same: "created' = created" using c c'(1) by simp
  have "mset (fst (shuffleArray g 0 active)) = mset active" by (rule shuffleArray_mset [OF g])
  then have len: "length (map u_id (fst (shuffleArray g 0 active))) = length active"
    by (metis size_mset length_map)
  then have ne: "map u_id (fst (shuffleArray g 0 active)) \<noteq> []"
    using n unfolding active_def by (metis length_0_conv not_numeral_le_zero)
  have "length created = length (makePairs (map u_id (fst (shuffleArray g 0 active))))"
    using c'(2) same by (metis length_map)
  then show ?thesis
    using length_makePairs [OF ne] len by (simp add: active_def)
qed

text \<open>
  C7 (as amended). Whatever the random choices, the \<open>sendDate\<close> of every record
  that a run of the planner creates is strictly later than the clock reading that
  \<^verbatim>\<open>getRandomSendDate\<close> took when it drew the date for that record, and lies
  between one hour (included) and 25 hours (excluded) after that reading. The
  record's \<open>createdAt\<close> is a later reading, taken when \<^verbatim>\<open>insertMany\<close> builds the
  document; with a clock that is not set back, \<open>sendDate\<close> is less than 25 hours
  after \<open>createdAt\<close>. That it is at least an hour after \<open>createdAt\<close> is not part of
  the statement.
\<close>

theorem created_sendDate_window:
  assumes g: "rng_ok g" and f: "f UserFind = None" "f AutoInsertMany = None"
  shows "\<exists>created. autoMessages (createAutoMessages f g clk w) = autoMessages w @ created
     \<and> (\<forall>i < length created.
          clk i < sendDate (created ! i)
        \<and> clk i + 1 * 60 * 60 * 1000 \<le> sendDate (created ! i)
        \<and> sendDate (created ! i) < clk i + 25 * 60 * 60 * 1000
        \<and> createdAt (created ! i) = clk (length created + i)
        \<and> (clock_ok clk \<longrightarrow>
              sendDate (created ! i) < createdAt (created ! i) + 25 * 60 * 60 * 1000))"
proof (cases "2 \<le> length (filter isActive (users w))")
  case False
  then have "createAutoMessages f g clk w = w"
    using f by (simp add: createAutoMessages_def Let_def)
  then show ?thesis by (intro exI [of _ "[]"]) simp
next
  case True
  obtain created where c: "autoMessages (createAutoMessages f g clk w) = autoMessages w @ created"
      "\<forall>i < length created. \<exists>k'. sendDate (created ! i) = fst (getRandomSendDate (clk i) g k')"
      "map createdAt created = map clk [length created ..< length created + length created]"
    using created_by_run [OF g f True] by blast
  have "clk i < sendDate (created ! i)
        \<and> clk i + 1 * 60 * 60 * 1000 \<le> sendDate (created ! i)
        \<and> sendDate (created ! i) < clk i + 25 * 60 * 60 * 1000
        \<and> createdAt (created ! i) = clk (length created + i)
        \<and> (clock_ok clk \<longrightarrow>
              sendDate (created ! i) < createdAt (created ! i) + 25 * 60 * 60 * 1000)"
    if i: "i < length created" for i
  proof -
    obtain k' where k': "sendDate (created ! i) = fst (getRandomSendDate (clk i) g k')"
      using c(2) i by blast
    have win: "clk i < sendDate (created ! i)"
        "clk i + 1 * 60 * 60 * 1000 \<le> sendDate (created ! i)"
        "sendDate (created ! i) < clk i + 25 * 60 * 60 * 1000"
      using getRandomSendDate_window [OF g, of "clk i" k'] unfolding k' by simp_all
    have "createdAt (created ! i) = map createdAt created ! i" using i by simp
    also have "\<dots> = clk ([length created ..< length created + length created] ! i)"
      unfolding c(3) using i by (subst nth_map) simp_all
    also have "\<dots> = clk (length created + i)" using i by simp
    finally have stamp: "createdAt (created ! i) = clk (length created + i)" .
    have "sendDate (created ! i) < createdAt (created ! i) + 25 * 60 * 60 * 1000"
      if "clock_ok clk"
    proof -
      have "clk i \<le> clk (length created + i)" using that by (simp add: clock_ok_def)
      then show ?thesis using win(3) stamp by simp
    qed
    then show ?thesis using win stamp by blast
  qed
  then show ?thesis using c(1) by blast
qed

lemma draw_low_ok: "rng_ok draw_low"
  by (simp add: rng_ok_def draw_low_def)

lemma draw_low_date: "fst (getRandomSendDate now draw_low k) = now + 3600000"
  by (simp add: getRandomSendDate_def draw_low_def Let_def)

text \<open>
  Two users, every draw 0 and a clock that advances by a millisecond between its
  readings: the date is drawn at reading 0 with the least offset, one hour, and the
  record is stamped at reading 1, so that its \<open>sendDate\<close> is less than an hour after
  its \<open>createdAt\<close>.
\<close>

theorem created_sendDate_counterexample:
  "map sendDate (autoMessages (createAutoMessages no_faults draw_low tick_clock two_users))
     = [3600000]
   \<and> map createdAt (autoMessages (createAutoMessages no_faults draw_low tick_clock two_users))
     = [1]
   \<and> \<not> (1 + 1 * 60 * 60 * 1000 \<le> (3600000 :: int))"
proof -
  have f: "no_faults UserFind = None" "no_faults AutoInsertMany = None"
    by (simp_all add: no_faults_def)
  have act: "filter isActive (users two_users) = [example_user 10, example_user 11]"
    by (simp add: two_users_def example_world_def example_user_def)
  have n: "2 \<le> length (filter isActive (users two_users))" by (simp add: act)
  obtain created where c:
      "autoMessages (createAutoMessages no_faults draw_low tick_clock two_users)
         = autoMessages two_users @ created"
      "\<forall>i < length created. \<exists>k'. sendDate (created ! i)
         = fst (getRandomSendDate (tick_clock i) draw_low k')"
      "map createdAt created = map tick_clock [length created ..< length created + length created]"
    using created_by_run [OF draw_low_ok f n] by blast
  have "length created = 1"
    using run_length [OF draw_low_ok f n c(1)] by (simp add: act)
  then obtain r where r: "created = [r]" by (cases created) simp_all
  have "sendDate r = 3600000"
    using c(2) unfolding r by (simp add: draw_low_date tick_clock_def)
  moreover have "createdAt r = 1"
    using c(3) unfolding r by (simp add: tick_clock_def)
  moreover have "autoMessages two_users = []" by (simp add: two_users_def)
  ultimately show ?thesis using c(1) r by simp
qed

theorem created_sendDate_window_witness:
  "rng_ok draw_low \<and> no_faults UserFind = None \<and> no_faults AutoInsertMany = None
   \<and> clock_ok tick_clock
   \<and> (\<exists>created. autoMessages (createAutoMessages no_faults draw_low tick_clock two_users)
          = autoMessages two_users @ created
        \<and> length created = 1
        \<and> tick_clock 0 < sendDate (created ! 0)
        \<and> tick_clock 0 + 1 * 60 * 60 * 1000 \<le> sendDate (created ! 0)
        \<and> createdAt (created ! 0) = tick_clock 1
        \<and> sendDate (created ! 0) < createdAt (created ! 0) + 25 * 60 * 60 * 1000)"
proof -
  have f: "no_faults UserFind = None" "no_faults AutoInsertMany = None"
    by (simp_all add: no_faults_def)
  have ck: "clock_ok tick_clock" by (simp add: clock_ok_def tick_clock_def)
  have n: "2 \<le> length (filter isActive (users two_users))"
    by (simp add: two_users_def example_world_def example_user_def)
  from created_sendDate_window [OF draw_low_ok f, of tick_clock two_users] obtain created where
    c: "autoMessages (createAutoMessages no_faults draw_low tick_clock two_users)
          = autoMessages two_users @ created" and
    w: "\<forall>i < length created.
          tick_clock i < sendDate (created ! i)
        \<and> tick_clock i + 1 * 60 * 60 * 1000 \<le> sendDate (created ! i)
        \<and> sendDate (created ! i) < tick_clock i + 25 * 60 * 60 * 1000
        \<and> createdAt (created ! i) = tick_clock (length created + i)
        \<and> (clock_ok tick_clock \<longrightarrow>
              sendDate (created ! i) < createdAt (created ! i) + 25 * 60 * 60 * 1000)"
    by (elim exE conjE) (rule that, assumption+)
  have len: "length created = 1"
    using run_length [OF draw_low_ok f n c]
    by (simp add: two_users_def example_world_def example_user_def)
  have "tick_clock 0 < sendDate (created ! 0)
        \<and> tick_clock 0 + 1 * 60 * 60 * 1000 \<le> sendDate (created ! 0)
        \<and> createdAt (created ! 0) = tick_clock 1
        \<and> sendDate (created ! 0) < createdAt (created ! 0) + 25 * 60 * 60 * 1000"
    using w len ck by simp
  then show ?thesis
    by (intro conjI exI [of _ created]) (use draw_low_ok f ck c len in simp_all)
qed

section \<open>Properties of the conversation directory\<close>

lemma find_append_list:
  "find P (xs @ ys) = (case find P xs of None \<Rightarrow> find P ys | Some x \<Rightarrow> Some x)"
  by (induction xs) simp_all

lemma find_Some_holds: "find P xs = Some x \<Longrightarrow> P x \<and> x \<in> set xs"
  by (induction xs) (auto split: if_splits)

lemma fold_max_ge: "a \<le> fold max ids a \<and> (\<forall>i \<in> set ids. i \<le> fold max ids (a::nat))"
proof (induction ids arbitrary: a)
  case Nil
  then show ?case by simp
next
  case (Cons x xs)
  have ih: "max x a \<le> fold max xs (max x a)" "\<forall>i \<in> set xs. i \<le> fold max xs (max x a)"
    using Cons.IH [of "max x a"] by simp_all
  have "a \<le> fold max xs (max x a)" "x \<le> fold max xs (max x a)"
    using ih(1) by simp_all
  then show ?case using ih(2) by simp
qed

lemma nextId_fresh: "i \<in> set ids \<Longrightarrow> i < nextId ids"
  using fold_max_ge [of 0 ids] by (auto simp: nextId_def)

lemma conv_findById_new:
  "conv_findById (nextId (map c_id coll)) (coll @ [c\<lparr>c_id := nextId (map c_id coll)\<rparr>])
     = Some (c\<lparr>c_id := nextId (map c_id coll)\<rparr>)"
proof -
  have "find (\<lambda>x. c_id x = nextId (map c_id coll)) coll = None"
    using nextId_fresh [of _ "map c_id coll"] by (force simp: find_None_iff)
  then show ?thesis by (simp add: conv_findById_def find_append_list)
qed

lemma findOrCreate_no_faults:
  "findOrCreateConversation no_faults now a b w
     = (Inr (Some (resolved now a b w)), resolved_world now a b w)"
proof (cases "conv_findOne a b (conversations w)")
  case None
  have "conv_findById (nextId (map c_id (conversations w)))
      (conversations w @ [\<lparr>c_id = nextId (map c_id (conversations w)), participants = [a, b],
          lastMessage = None, lastActivity = now, c_isActive = True\<rparr>])
     = Some \<lparr>c_id = nextId (map c_id (conversations w)), participants = [a, b],
          lastMessage = None, lastActivity = now, c_isActive = True\<rparr>"
    using conv_findById_new [of "conversations w" "\<lparr>c_id = 0, participants = [a, b],
          lastMessage = None, lastActivity = now, c_isActive = True\<rparr>"] by simp
  then show ?thesis using None
    by (simp add: findOrCreateConversation_def createAndReload_def no_faults_def resolved_def
        resolved_world_def conv_create_def Let_def)
next
  case (Some c)
  then show ?thesis
    by (simp add: findOrCreateConversation_def no_faults_def resolved_def resolved_world_def)
qed

lemma conv_match_sym: "conv_match a b c = conv_match b a c"
  by (auto simp: conv_match_def)

lemma conv_findOne_sym: "conv_findOne a b coll = conv_findOne b a coll"
  unfolding conv_findOne_def by (rule find_cong) (simp_all add: conv_match_sym)

lemma resolved_found:
  "conv_findOne a b (conversations (resolved_world now a b w)) = Some (resolved now a b w)"
proof (cases "conv_findOne a b (conversations w)")
  case None
  then show ?thesis
    by (simp add: resolved_def resolved_world_def conv_create_def Let_def conv_findOne_def
        find_append_list conv_match_def)
next
  case (Some c)
  then show ?thesis by (simp add: resolved_def resolved_world_def)
qed

lemma resolved_single:
  assumes "conv_findOne a b (conversations w) = None"
  shows "length (filter (conv_match a b) (conversations (resolved_world now a b w))) = 1"
proof -
  have "filter (conv_match a b) (conversations w) = []"
    using assms by (auto simp: conv_findOne_def find_None_iff filter_empty_conv)
  then show ?thesis
    using assms by (simp add: resolved_world_def conv_create_def Let_def conv_match_def)
qed

text \<open>
  C5 (as amended). For calls that do not overlap, \<^verbatim>\<open>findOrCreateConversation\<close> does
  not depend on the order of the two users and converges: after a first call for
  \<open>(a, b)\<close>, a call for \<open>(b, a)\<close> or for \<open>(a, b)\<close> returns the conversation of
  the first call and creates nothing, and when the pair had no active conversation
  before, it has exactly one afterwards.
\<close>

theorem findOrCreate_sequential:
  "\<exists>c w1. findOrCreateConversation no_faults t1 a b w = (Inr (Some c), w1)
     \<and> findOrCreateConversation no_faults t2 b a w1 = (Inr (Some c), w1)
     \<and> findOrCreateConversation no_faults t2 a b w1 = (Inr (Some c), w1)
     \<and> conv_findOne a b (conversations w) = conv_findOne b a (conversations w)
     \<and> (conv_findOne a b (conversations w) = None
          \<longrightarrow> length (filter (conv_match a b) (conversations w1)) = 1)"
proof -
  let ?c = "resolved t1 a b w" and ?w1 = "resolved_world t1 a b w"
  have f: "conv_findOne a b (conversations ?w1) = Some ?c" by (rule resolved_found)
  then have f': "conv_findOne b a (conversations ?w1) = Some ?c"
    by (simp add: conv_findOne_sym [of b a])
  have 1: "findOrCreateConversation no_faults t2 a b ?w1 = (Inr (Some ?c), ?w1)"
    using f by (simp add: findOrCreate_no_faults resolved_def resolved_world_def)
  have 2: "findOrCreateConversation no_faults t2 b a ?w1 = (Inr (Some ?c), ?w1)"
    using f' by (simp add: findOrCreate_no_faults resolved_def resolved_world_def)
  show ?thesis
    by (intro exI [of _ ?c] exI [of _ ?w1])
       (use 1 2 findOrCreate_no_faults [of t1 a b w] conv_findOne_sym [of a b] resolved_single in simp)
qed

theorem findOrCreate_sequential_witness:
  "conv_findOne 10 11 (conversations example_world) = None
   \<and> (\<exists>c w1. findOrCreateConversation no_faults 1 10 11 example_world = (Inr (Some c), w1)
        \<and> findOrCreateConversation no_faults 2 11 10 w1 = (Inr (Some c), w1)
        \<and> length (filter (conv_match 10 11) (conversations w1)) = 1)"
proof -
  have h: "conv_findOne 10 11 (conversations example_world) = None"
    by (simp add: conv_findOne_def example_world_def)
  from findOrCreate_sequential [of 1 10 11 example_world 2] obtain c w1 where
      "findOrCreateConversation no_faults 1 10 11 example_world = (Inr (Some c), w1)"
      "findOrCreateConversation no_faults 2 11 10 w1 = (Inr (Some c), w1)"
      "conv_findOne 10 11 (conversations example_world) = None
          \<longrightarrow> length (filter (conv_match 10 11) (conversations w1)) = 1"
    by (elim exE conjE) (rule that, assumption+)
  then show ?thesis using h by blast
qed

text \<open>
  Two calls for the same pair that overlap, both lookups running before either
  creation, create two active conversations and return two different ids.
\<close>

theorem findOrCreate_overlapped_counterexample:
  "map c_id (conversations (snd (snd (findOrCreate_overlapped 5 (10, 11) (11, 10) example_world)))) = [1, 2]
   \<and> map (conv_match 10 11) (conversations (snd (snd (findOrCreate_overlapped 5 (10, 11) (11, 10) example_world)))) = [True, True]
   \<and> map_sum id (map_option c_id) (fst (findOrCreate_overlapped 5 (10, 11) (11, 10) example_world)) = Inr (Some 1)
   \<and> map_sum id (map_option c_id) (fst (snd (findOrCreate_overlapped 5 (10, 11) (11, 10) example_world))) = Inr (Some 2)"
  by (simp add: findOrCreate_overlapped_def continueAfterLookup_def createAndReload_def
      conv_findOne_def conv_findById_def conv_create_def conv_match_def nextId_def
      no_faults_def example_world_def Let_def)

section \<open>Properties of the consumer\<close>

lemma findOrCreate_autoMessages:
  "findOrCreateConversation f now a b w = (res, w1) \<Longrightarrow>
     autoMessages w1 = autoMessages w \<and> messages w1 = messages w"
  by (auto simp: findOrCreateConversation_def createAndReload_def conv_create_def Let_def
      split: option.splits)

lemma try_fail_autoMessages:
  assumes "processAutoMessage_try f now p w = (Inl e, w1)"
  shows "autoMessages w1 = autoMessages w"
proof -
  obtain res w0 where foc: "findOrCreateConversation f now (senderId p) (receiverId p) w = (res, w0)"
    by force
  have a0: "autoMessages w0 = autoMessages w" using findOrCreate_autoMessages [OF foc] by simp
  show ?thesis
    using assms a0 unfolding processAutoMessage_try_def foc
    by (auto simp: Let_def split: sum.splits option.splits)
qed

lemma find_saved:
  "am_id doc = i \<Longrightarrow> findAutoMessageById i coll = Some r \<Longrightarrow>
     findAutoMessageById i (saveAutoMessage doc coll) = Some doc"
  unfolding findAutoMessageById_def saveAutoMessage_def
  by (induction coll) (auto split: if_splits)

lemma find_id: "findAutoMessageById i coll = Some r \<Longrightarrow> am_id r = i"
  unfolding findAutoMessageById_def by (drule find_Some_holds) simp

lemma resolved_world_frame:
  "autoMessages (resolved_world now a b w) = autoMessages w"
  "messages (resolved_world now a b w) = messages w"
  by (simp_all add: resolved_world_def split: option.splits)

lemma m_content_newMessage: "m_content (newMessage p c coll) = trim (p_content p)"
  by (simp add: newMessage_def)

lemma try_ok:
  assumes "validateContent ''Message'' (trim (p_content p)) = None"
  shows "processAutoMessage_try no_faults now p w = (Inr (), delivered now p w)"
proof -
  have nf: "no_faults c = None" for c by (simp add: no_faults_def)
  show ?thesis
    unfolding processAutoMessage_try_def findOrCreate_no_faults
    by (simp add: Let_def nf assms m_content_newMessage resolved_world_frame delivered_def
        split: option.splits)
qed

lemma process_ok:
  assumes "validateContent ''Message'' (trim (p_content p)) = None"
  shows "processAutoMessage no_faults now p w = (Inr (), delivered now p w)"
    and "onMessage no_faults now p w = (Ack, delivered now p w)"
  by (simp_all add: processAutoMessage_def onMessage_def try_ok [OF assms])

lemma findOrCreate_success:
  assumes "findOrCreateConversation f now a b w = (Inr (Some c), w1)"
  shows "c = resolved now a b w \<and> w1 = resolved_world now a b w"
proof (cases "conv_findOne a b (conversations w)")
  case None
  have new: "conv_findById (nextId (map c_id (conversations w)))
      (conversations w @ [\<lparr>c_id = nextId (map c_id (conversations w)), participants = [a, b],
          lastMessage = None, lastActivity = now, c_isActive = True\<rparr>])
     = Some \<lparr>c_id = nextId (map c_id (conversations w)), participants = [a, b],
          lastMessage = None, lastActivity = now, c_isActive = True\<rparr>"
    using conv_findById_new [of "conversations w" "\<lparr>c_id = 0, participants = [a, b],
          lastMessage = None, lastActivity = now, c_isActive = True\<rparr>"] by simp
  show ?thesis
    using assms None new
    by (auto simp: findOrCreateConversation_def createAndReload_def conv_create_def Let_def
        resolved_def resolved_world_def split: option.splits)
next
  case (Some c')
  then show ?thesis
    using assms
    by (auto simp: findOrCreateConversation_def resolved_def resolved_world_def
        split: option.splits)
qed

lemma try_success:
  assumes "processAutoMessage_try f now p w = (Inr u, w')"
  shows "w' = delivered now p w"
proof -
  obtain res w1 where foc:
      "findOrCreateConversation f now (senderId p) (receiverId p) w = (res, w1)"
    by force
  from assms obtain conv where res: "res = Inr (Some conv)"
    unfolding processAutoMessage_try_def foc
    by (auto split: sum.splits option.splits)
  have cw: "conv = resolved now (senderId p) (receiverId p) w"
      "w1 = resolved_world now (senderId p) (receiverId p) w"
    using findOrCreate_success [OF foc [unfolded res]] by simp_all
  have fr: "autoMessages w1 = autoMessages w" "messages w1 = messages w"
    unfolding cw(2) by (rule resolved_world_frame)+
  show ?thesis
    using assms unfolding processAutoMessage_try_def foc res
    by (auto simp: Let_def fr delivered_def cw [symmetric] split: option.splits)
qed

lemma ack_delivered:
  assumes "onMessage f now p w = (Ack, w')"
  shows "w' = delivered now p w"
proof -
  obtain res w1 where t: "processAutoMessage_try f now p w = (res, w1)" by force
  show ?thesis
  proof (cases res)
    case (Inl e)
    then show ?thesis using assms by (simp add: onMessage_def processAutoMessage_def t)
  next
    case (Inr u)
    then have "w' = w1" using assms by (simp add: onMessage_def processAutoMessage_def t)
    then show ?thesis using try_success t Inr by blast
  qed
qed

lemma delivered_messages:
  "messages (delivered now p w) =
     messages w @ [newMessage p (c_id (resolved now (senderId p) (receiverId p) w)) (messages w)]"
  by (simp add: delivered_def Let_def split: option.splits)

lemma delivered_autoMessages:
  "autoMessages (delivered now p w) =
     (case findAutoMessageById (autoMessageId p) (autoMessages w) of
        None \<Rightarrow> autoMessages w
      | Some autoMsg \<Rightarrow>
          saveAutoMessage
            (markAsSent now
               (m_id (newMessage p (c_id (resolved now (senderId p) (receiverId p) w)) (messages w)))
               autoMsg)
            (autoMessages w))"
  by (simp add: delivered_def Let_def resolved_world_frame split: option.splits)

lemma saveConversation_mem:
  "c \<in> set coll \<Longrightarrow> c_id doc = c_id c \<Longrightarrow> doc \<in> set (saveConversation doc coll)"
  by (force simp: saveConversation_def)

lemma delivered_conversation:
  "\<exists>c \<in> set (conversations (delivered now p w)).
      c_id c = c_id (resolved now (senderId p) (receiverId p) w)
    \<and> lastMessage c = Some (m_id (newMessage p (c_id (resolved now (senderId p) (receiverId p) w)) (messages w)))
    \<and> lastActivity c = now"
proof -
  let ?conv = "resolved now (senderId p) (receiverId p) w"
  let ?w1 = "resolved_world now (senderId p) (receiverId p) w"
  let ?mid = "m_id (newMessage p (c_id ?conv) (messages w))"
  let ?doc = "updateLastActivity now (Some ?mid) ?conv"
  have "?conv \<in> set (conversations ?w1)"
    using resolved_found [of "senderId p" "receiverId p" now w]
    unfolding conv_findOne_def by (auto dest: find_Some_holds)
  moreover have "c_id ?doc = c_id ?conv" by (simp add: updateLastActivity_def Let_def)
  ultimately have "?doc \<in> set (saveConversation ?doc (conversations ?w1))"
    by (intro saveConversation_mem)
  moreover have "conversations (delivered now p w) = saveConversation ?doc (conversations ?w1)"
    by (simp add: delivered_def Let_def split: option.splits)
  moreover have "c_id ?doc = c_id ?conv \<and> lastMessage ?doc = Some ?mid \<and> lastActivity ?doc = now"
    by (simp add: updateLastActivity_def Let_def)
  ultimately show ?thesis by metis
qed

text \<open>
  A payload that names no record and whose content is blank: the conversation is
  looked up or created, the message fails the \<^verbatim>\<open>required\<close> validation, nothing is
  persisted as a message and the delivery is rejected with requeue.
\<close>

theorem missing_record_counterexample:
  "findAutoMessageById (autoMessageId blank_payload) (autoMessages example_world) = None
   \<and> fst (processAutoMessage no_faults 1 blank_payload example_world)
       = Inl ''Message validation failed: content: Message content is required''
   \<and> fst (onMessage no_faults 1 blank_payload example_world) = NackRequeue
   \<and> messages (snd (onMessage no_faults 1 blank_payload example_world)) = []"
  by (simp add: blank_payload_def consumer_defs example_defs)

text \<open>
  C9 (as amended). When the payload's \<open>autoMessageId\<close> names no scheduling record,
  its content passes the Message schema (not empty after trimming, at most 1000 code
  units) and no call fails, the handler still persists a new message of type auto in
  the pair's conversation, makes it the conversation's last message, returns
  normally, so that the message is acknowledged, and leaves the scheduling records as
  they are.
\<close>

theorem missing_record_delivery:
  assumes "findAutoMessageById (autoMessageId p) (autoMessages w) = None"
    and "validateContent ''Message'' (trim (p_content p)) = None"
  shows "\<exists>conv msg w'.
      processAutoMessage no_faults now p w = (Inr (), w')
    \<and> onMessage no_faults now p w = (Ack, w')
    \<and> fst (findOrCreateConversation no_faults now (senderId p) (receiverId p) w) = Inr (Some conv)
    \<and> messages w' = messages w @ [msg]
    \<and> m_sender msg = senderId p \<and> m_receiver msg = receiverId p
    \<and> m_conversation msg = c_id conv \<and> m_content msg = trim (p_content p)
    \<and> m_messageType msg = AutoMessage
    \<and> (\<exists>c \<in> set (conversations w'). c_id c = c_id conv
          \<and> lastMessage c = Some (m_id msg) \<and> lastActivity c = now)
    \<and> autoMessages w' = autoMessages w"
proof -
  let ?conv = "resolved now (senderId p) (receiverId p) w"
  let ?msg = "newMessage p (c_id ?conv) (messages w)"
  have "autoMessages (delivered now p w) = autoMessages w"
    using assms(1) by (simp add: delivered_autoMessages)
  moreover have "m_sender ?msg = senderId p \<and> m_receiver ?msg = receiverId p
      \<and> m_conversation ?msg = c_id ?conv \<and> m_content ?msg = trim (p_content p)
      \<and> m_messageType ?msg = AutoMessage"
    by (simp add: newMessage_def)
  ultimately show ?thesis
    using process_ok [OF assms(2), of now w] delivered_messages [of now p w]
      delivered_conversation [of now p w] findOrCreate_no_faults [of now "senderId p" "receiverId p" w]
    by (intro exI [of _ ?conv] exI [of _ ?msg] exI [of _ "delivered now p w"]) simp
qed

lemma example_valid: "validateContent ''Message'' (trim (p_content example_payload)) = None"
  by (simp add: example_payload_def trim_example valid_example)

theorem missing_record_delivery_witness:
  "findAutoMessageById (autoMessageId (example_payload\<lparr>autoMessageId := 99\<rparr>))
       (autoMessages example_world) = None
   \<and> validateContent ''Message'' (trim (p_content (example_payload\<lparr>autoMessageId := 99\<rparr>))) = None
   \<and> fst (onMessage no_faults 1 (example_payload\<lparr>autoMessageId := 99\<rparr>) example_world) = Ack
   \<and> length (messages (snd (onMessage no_faults 1 (example_payload\<lparr>autoMessageId := 99\<rparr>)
         example_world))) = 1
   \<and> autoMessages (snd (onMessage no_faults 1 (example_payload\<lparr>autoMessageId := 99\<rparr>)
         example_world)) = [example_record]"
proof -
  let ?p = "example_payload\<lparr>autoMessageId := 99\<rparr>"
  have h1: "findAutoMessageById (autoMessageId ?p) (autoMessages example_world) = None"
    by (simp add: findAutoMessageById_def example_defs)
  have h2: "validateContent ''Message'' (trim (p_content ?p)) = None"
    using example_valid by simp
  from missing_record_delivery [OF h1 h2, of 1] obtain msg w' where
      "onMessage no_faults 1 ?p example_world = (Ack, w')"
      "messages w' = messages example_world @ [msg]"
      "autoMessages w' = autoMessages example_world"
    by (elim exE conjE) (rule that, assumption+)
  then show ?thesis using h1 h2 by (simp add: example_world_def)
qed

text \<open>
  The example payload delivered twice: both deliveries are acknowledged and two
  messages are persisted, the record pointing to the second.
\<close>

theorem redelivery_counterexample:
  "fst (onMessage no_faults 1 example_payload example_world) = Ack
   \<and> fst (onMessage no_faults 2 example_payload delivered_once) = Ack
   \<and> map m_id (messages delivered_twice) = [1, 2]
   \<and> map m_content (messages delivered_twice)
       = [ascii ''Just checking in on you!'', ascii ''Just checking in on you!'']
   \<and> map isSent (autoMessages delivered_twice) = [True]
   \<and> map messageId (autoMessages delivered_twice) = [Some 2]"
  by (simp add: delivered_twice_def delivered_once_def consumer_defs example_defs)

text \<open>
  C1 (as amended). Every delivery that the handler completes persists one new
  message: when the same payload is delivered twice and both deliveries are
  acknowledged, whichever calls could have failed, two messages with different ids
  have been added, both of type auto with the payload's trimmed content, and the
  scheduling record the payload names, when there is one, ends with
  \<open>isSent = true\<close>, \<open>messageId\<close> the id of the second message and \<open>sentAt\<close> the time
  of the second delivery. No read guards the second delivery.
\<close>

theorem redelivery_duplicates:
  assumes "onMessage f1 t1 p w = (Ack, w1)" and "onMessage f2 t2 p w1 = (Ack, w2)"
  shows "\<exists>m1 m2.
      messages w1 = messages w @ [m1] \<and> messages w2 = messages w @ [m1, m2]
    \<and> m_id m1 \<noteq> m_id m2
    \<and> m_content m1 = trim (p_content p) \<and> m_content m2 = trim (p_content p)
    \<and> m_messageType m1 = AutoMessage \<and> m_messageType m2 = AutoMessage
    \<and> (\<forall>r. findAutoMessageById (autoMessageId p) (autoMessages w) = Some r \<longrightarrow>
          (\<exists>r2. findAutoMessageById (autoMessageId p) (autoMessages w2) = Some r2
             \<and> isSent r2 \<and> messageId r2 = Some (m_id m2) \<and> sentAt r2 = Some t2))"
proof -
  have w1: "w1 = delivered t1 p w" using assms(1) by (rule ack_delivered)
  have w2: "w2 = delivered t2 p (delivered t1 p w)"
    using assms(2) unfolding w1 by (rule ack_delivered)
  let ?w1 = "delivered t1 p w" and ?w2 = "delivered t2 p (delivered t1 p w)"
  let ?m1 = "newMessage p (c_id (resolved t1 (senderId p) (receiverId p) w)) (messages w)"
  let ?m2 = "newMessage p (c_id (resolved t2 (senderId p) (receiverId p) ?w1)) (messages ?w1)"
  have ms1: "messages ?w1 = messages w @ [?m1]" by (rule delivered_messages)
  have ms2: "messages ?w2 = messages w @ [?m1, ?m2]"
    using delivered_messages [of t2 p ?w1] ms1 by simp
  have "m_id ?m1 \<in> set (map m_id (messages ?w1))" using ms1 by simp
  then have "m_id ?m1 < nextId (map m_id (messages ?w1))" by (rule nextId_fresh)
  moreover have "m_id ?m2 = nextId (map m_id (messages ?w1))" by (simp add: newMessage_def)
  ultimately have ids: "m_id ?m1 \<noteq> m_id ?m2" by simp
  have fields: "m_content ?m1 = trim (p_content p)" "m_content ?m2 = trim (p_content p)"
      "m_messageType ?m1 = AutoMessage" "m_messageType ?m2 = AutoMessage"
    by (simp_all add: newMessage_def)
  have sent: "\<exists>r2. findAutoMessageById (autoMessageId p) (autoMessages ?w2) = Some r2
        \<and> isSent r2 \<and> messageId r2 = Some (m_id ?m2) \<and> sentAt r2 = Some t2"
    if r: "findAutoMessageById (autoMessageId p) (autoMessages w) = Some r" for r
  proof -
    let ?r1 = "markAsSent t1 (m_id ?m1) r"
    have idr: "am_id r = autoMessageId p" using r by (rule find_id)
    have a1: "autoMessages ?w1 = saveAutoMessage ?r1 (autoMessages w)"
      using r by (simp add: delivered_autoMessages)
    have f1: "findAutoMessageById (autoMessageId p) (autoMessages ?w1) = Some ?r1"
      unfolding a1 using r idr by (intro find_saved [of _ _ _ r]) (simp_all add: markAsSent_def)
    let ?r2 = "markAsSent t2 (m_id ?m2) ?r1"
    have a2: "autoMessages ?w2 = saveAutoMessage ?r2 (autoMessages ?w1)"
      using f1 by (simp add: delivered_autoMessages [of t2 p ?w1])
    have "findAutoMessageById (autoMessageId p) (autoMessages ?w2) = Some ?r2"
      unfolding a2 using f1 idr by (intro find_saved [of _ _ _ ?r1]) (simp_all add: markAsSent_def)
    moreover have "isSent ?r2 \<and> messageId ?r2 = Some (m_id ?m2) \<and> sentAt ?r2 = Some t2"
      by (simp add: markAsSent_def)
    ultimately show ?thesis by blast
  qed
  show ?thesis
    unfolding w1 w2
    by (intro exI [of _ ?m1] exI [of _ ?m2]) (use ms1 ms2 ids fields sent in simp)
qed

theorem redelivery_duplicates_witness:
  "onMessage no_faults 1 example_payload example_world = (Ack, delivered_once)
   \<and> onMessage no_faults 2 example_payload delivered_once = (Ack, delivered_twice)
   \<and> findAutoMessageById (autoMessageId example_payload) (autoMessages example_world)
       = Some example_record
   \<and> (\<exists>m1 m2. messages delivered_twice = messages example_world @ [m1, m2]
        \<and> m_id m1 \<noteq> m_id m2
        \<and> (\<exists>r2. findAutoMessageById 1 (autoMessages delivered_twice) = Some r2 \<and> isSent r2
              \<and> messageId r2 = Some (m_id m2)))"
proof -
  have a1: "onMessage no_faults 1 example_payload example_world = (Ack, delivered_once)"
    by (simp add: delivered_once_def process_ok(2) [OF example_valid])
  have a2: "onMessage no_faults 2 example_payload delivered_once = (Ack, delivered_twice)"
    by (simp add: delivered_twice_def process_ok(2) [OF example_valid])
  have r: "findAutoMessageById (autoMessageId example_payload) (autoMessages example_world)
      = Some example_record"
    by (simp add: findAutoMessageById_def example_payload_def example_world_def example_record_def)
  have i: "autoMessageId example_payload = 1" by (simp add: example_payload_def)
  from redelivery_duplicates [OF a1 a2]
  obtain m1 m2 where
      "messages delivered_twice = messages example_world @ [m1, m2]" "m_id m1 \<noteq> m_id m2"
      "\<forall>r. findAutoMessageById (autoMessageId example_payload) (autoMessages example_world) = Some r \<longrightarrow>
          (\<exists>r2. findAutoMessageById (autoMessageId example_payload) (autoMessages delivered_twice)
                 = Some r2
             \<and> isSent r2 \<and> messageId r2 = Some (m_id m2) \<and> sentAt r2 = Some 2)"
    by (elim exE conjE) (rule that, assumption+)
  then show ?thesis using a1 a2 r i by auto
qed

text \<open>
  A queued record with \<open>retryCount = 2\<close>: the failing delivery brings it to 3, the
  record stays queued, the message is requeued, and the next delivery is processed
  all the same, bringing it to 4.
\<close>

theorem retry_bound_counterexample:
  "fst (onMessage failing 1 example_payload queued_world) = NackRequeue
   \<and> map retryCount (autoMessages failed_once) = [3]
   \<and> map isQueued (autoMessages failed_once) = [True]
   \<and> fst (onMessage failing 2 example_payload failed_once) = NackRequeue
   \<and> map retryCount (autoMessages (snd (onMessage failing 2 example_payload failed_once))) = [4]"
  by (simp add: failed_once_def failing_def queued_world_def consumer_defs example_defs)

text \<open>
  C3 (as amended). In every delivery in which the handler throws, the callback
  rejects the message with requeue, whatever the \<open>retryCount\<close>; when the scheduling
  record exists and the two calls of the catch block succeed, \<open>retryCount\<close> grows
  by one, a non-empty error message is stored, and \<open>isQueued\<close> and \<open>isSent\<close> stay
  as they were.
\<close>

theorem failure_handling:
  assumes "fst (processAutoMessage f now p w) = Inl e"
  shows "fst (onMessage f now p w) = NackRequeue
     \<and> (\<forall>r. f CatchFindById = None \<and> f CatchSaveRetry = None
            \<and> findAutoMessageById (autoMessageId p) (autoMessages w) = Some r \<longrightarrow>
          (\<exists>r'. findAutoMessageById (autoMessageId p) (autoMessages (snd (onMessage f now p w)))
                  = Some r'
             \<and> retryCount r' = retryCount r + 1
             \<and> error r' = (if e = [] then error r else Some e)
             \<and> isQueued r' = isQueued r \<and> isSent r' = isSent r))"
proof -
  obtain res w1 where t: "processAutoMessage_try f now p w = (res, w1)" by force
  have res: "res = Inl e"
    using assms by (cases res) (simp_all add: processAutoMessage_def t)
  have a1: "autoMessages w1 = autoMessages w"
    using t res try_fail_autoMessages by blast
  have pr: "processAutoMessage f now p w = (Inl e, processAutoMessage_catch f p e w1)"
    by (simp add: processAutoMessage_def t res)
  have on: "onMessage f now p w = (NackRequeue, processAutoMessage_catch f p e w1)"
    by (simp add: onMessage_def pr)
  have "\<exists>r'. findAutoMessageById (autoMessageId p)
            (autoMessages (processAutoMessage_catch f p e w1)) = Some r'
       \<and> retryCount r' = retryCount r + 1
       \<and> error r' = (if e = [] then error r else Some e)
       \<and> isQueued r' = isQueued r \<and> isSent r' = isSent r"
    if c: "f CatchFindById = None" "f CatchSaveRetry = None"
      and r: "findAutoMessageById (autoMessageId p) (autoMessages w) = Some r" for r
  proof -
    let ?r' = "incrementRetry (Some e) r"
    have idr: "am_id ?r' = autoMessageId p"
      using find_id [OF r] by (simp add: incrementRetry_def Let_def)
    have "autoMessages (processAutoMessage_catch f p e w1) = saveAutoMessage ?r' (autoMessages w)"
      using c r by (simp add: processAutoMessage_catch_def a1)
    then have "findAutoMessageById (autoMessageId p)
        (autoMessages (processAutoMessage_catch f p e w1)) = Some ?r'"
      using find_saved [OF idr r] by simp
    moreover have "retryCount ?r' = retryCount r + 1
       \<and> error ?r' = (if e = [] then error r else Some e)
       \<and> isQueued ?r' = isQueued r \<and> isSent ?r' = isSent r"
      by (simp add: incrementRetry_def truthy_string_def Let_def)
    ultimately show ?thesis by blast
  qed
  then show ?thesis by (simp add: on)
qed

theorem failure_handling_witness:
  "fst (processAutoMessage failing 1 example_payload queued_world) = Inl ''connection lost''
   \<and> fst (onMessage failing 1 example_payload queued_world) = NackRequeue
   \<and> (\<exists>r'. findAutoMessageById 1 (autoMessages (snd (onMessage failing 1 example_payload queued_world)))
              = Some r'
         \<and> retryCount r' = 3 \<and> error r' = Some ''connection lost'' \<and> isQueued r' \<and> \<not> isSent r')"
proof -
  have h: "fst (processAutoMessage failing 1 example_payload queued_world) = Inl ''connection lost''"
    by (simp add: failing_def queued_world_def consumer_defs example_defs)
  have c: "failing CatchFindById = None" "failing CatchSaveRetry = None"
    by (simp_all add: failing_def no_faults_def)
  have r: "findAutoMessageById (autoMessageId example_payload) (autoMessages queued_world)
      = Some (example_record\<lparr>isQueued := True, queuedAt := Some 1000, retryCount := 2\<rparr>)"
    by (simp add: findAutoMessageById_def queued_world_def example_defs)
  show ?thesis
    using h c r failure_handling [OF h]
    by (simp add: example_payload_def example_record_def)
qed

section \<open>Properties of the scanner and the state transitions\<close>

lemma toPayload_cases:
  "toPayload (populate us r) =
     (if publishable us r
      then Inr \<lparr>autoMessageId = am_id r, senderId = u_id (the (findUserById (sender r) us)),
             receiverId = u_id (the (findUserById (receiver r) us)), p_content = content r,
             senderUsername = username (the (findUserById (sender r) us)),
             receiverUsername = username (the (findUserById (receiver r) us))\<rparr>
      else Inl nullRead)"
  by (auto simp: toPayload_def populate_def publishable_def split: option.splits)

lemma fst_populate: "fst (populate us r) = r"
  by (simp add: populate_def)

lemma queueOne_no_faults:
  "\<exists>w1. queueOne no_faults now (populate (users w) r) w = (Inr (), w1)
     \<and> users w1 = users w
     \<and> autoMessages w1 = saveAutoMessage (scanned (users w) now r) (autoMessages w)
     \<and> map autoMessageId (queue w1)
         = map autoMessageId (queue w) @ (if publishable (users w) r then [am_id r] else [])"
proof (cases "publishable (users w) r")
  case True
  then show ?thesis
    by (simp add: queueOne_def tryQueue_def toPayload_cases no_faults_def Let_def scanned_def
        fst_populate)
next
  case False
  then show ?thesis
    by (simp add: queueOne_def tryQueue_def toPayload_cases no_faults_def Let_def scanned_def
        fst_populate)
qed

lemma queueLoop_no_faults:
  "users (queueLoop no_faults now (map (populate (users w)) ds) w) = users w
   \<and> autoMessages (queueLoop no_faults now (map (populate (users w)) ds) w)
       = fold (\<lambda>d. saveAutoMessage (scanned (users w) now d)) ds (autoMessages w)
   \<and> map autoMessageId (queue (queueLoop no_faults now (map (populate (users w)) ds) w))
       = map autoMessageId (queue w) @ map am_id (filter (publishable (users w)) ds)"
proof (induction ds arbitrary: w)
  case Nil
  then show ?case by simp
next
  case (Cons d ds)
  obtain w1 where w1: "queueOne no_faults now (populate (users w) d) w = (Inr (), w1)"
      "users w1 = users w"
      "autoMessages w1 = saveAutoMessage (scanned (users w) now d) (autoMessages w)"
      "map autoMessageId (queue w1)
         = map autoMessageId (queue w) @ (if publishable (users w) d then [am_id d] else [])"
    using queueOne_no_faults [of now w d] by blast
  have step: "queueLoop no_faults now (map (populate (users w)) (d # ds)) w
      = queueLoop no_faults now (map (populate (users w1)) ds) w1"
    by (simp add: w1)
  show ?case
    unfolding step using Cons.IH [of w1] by (simp add: w1)
qed

lemma am_id_scanned: "am_id (scanned us now r) = am_id r"
  by (simp add: scanned_def markAsQueued_def incrementRetry_def Let_def)

lemma fold_save_mem:
  assumes "x \<in> set (fold (\<lambda>d. saveAutoMessage (scanned us now d)) ds coll)"
  shows "(x \<in> set coll \<and> am_id x \<notin> am_id ` set ds) \<or> (\<exists>d \<in> set ds. x = scanned us now d)"
  using assms
proof (induction ds arbitrary: coll)
  case Nil
  then show ?case by simp
next
  case (Cons d ds)
  from Cons.prems have "x \<in> set (fold (\<lambda>d. saveAutoMessage (scanned us now d)) ds
      (saveAutoMessage (scanned us now d) coll))" by simp
  then consider (old) "x \<in> set (saveAutoMessage (scanned us now d) coll)" "am_id x \<notin> am_id ` set ds"
    | (new) "\<exists>d' \<in> set ds. x = scanned us now d'"
    using Cons.IH by blast
  then show ?case
  proof cases
    case old
    from old(1) have "x = scanned us now d \<or> (x \<in> set coll \<and> am_id x \<noteq> am_id d)"
      by (auto simp: saveAutoMessage_def am_id_scanned split: if_splits)
    then show ?thesis using old(2) by auto
  next
    case new
    then show ?thesis by auto
  qed
qed

lemma scan_no_faults:
  "autoMessages (queueReadyMessages no_faults now w)
       = fold (\<lambda>d. saveAutoMessage (scanned (users w) now d))
           (filter (readyForQueuing now) (autoMessages w)) (autoMessages w)
   \<and> map autoMessageId (queue (queueReadyMessages no_faults now w))
       = map autoMessageId (queue w)
         @ map am_id (filter (publishable (users w)) (filter (readyForQueuing now) (autoMessages w)))
   \<and> users (queueReadyMessages no_faults now w) = users w"
proof (cases "filter (readyForQueuing now) (autoMessages w) = []")
  case True
  then show ?thesis
    by (simp add: queueReadyMessages_def getMessagesForQueuing_def no_faults_def)
next
  case False
  then have "queueReadyMessages no_faults now w
      = queueLoop no_faults now
          (map (populate (users w)) (filter (readyForQueuing now) (autoMessages w))) w"
    by (simp add: queueReadyMessages_def getMessagesForQueuing_def no_faults_def Let_def)
  then show ?thesis using queueLoop_no_faults by simp
qed

lemma published_marked:
  assumes d: "distinct (map am_id (autoMessages w))"
    and x: "x \<in> set (autoMessages (queueReadyMessages no_faults now w))"
    and p: "am_id x \<in> am_id ` set (filter (publishable (users w))
              (filter (readyForQueuing now) (autoMessages w)))"
  shows "\<exists>r \<in> set (autoMessages w). x = markAsQueued now r"
proof -
  let ?ds = "filter (readyForQueuing now) (autoMessages w)"
  from p obtain r where r: "r \<in> set ?ds" "publishable (users w) r" "am_id r = am_id x"
    by auto
  have dd: "distinct (map am_id ?ds)" using d by (rule distinct_map_filter)
  from x have "x \<in> set (fold (\<lambda>d. saveAutoMessage (scanned (users w) now d)) ?ds
      (autoMessages w))"
    using scan_no_faults [of now w] by simp
  then have "\<exists>d' \<in> set ?ds. x = scanned (users w) now d'"
    using fold_save_mem r(1,3) by (metis imageI)
  then obtain d' where d': "d' \<in> set ?ds" "x = scanned (users w) now d'" by blast
  have "am_id d' = am_id r" using d'(2) r(3) by (simp add: am_id_scanned)
  then have "d' = r" using dd d'(1) r(1) by (meson distinct_map inj_onD)
  then have "x = markAsQueued now r" using d'(2) r(2) by (simp add: scanned_def)
  then show ?thesis using r(1) by auto
qed

lemma published_not_selected_again:
  assumes d: "distinct (map am_id (autoMessages w))"
    and pm: "pm \<in> set (getMessagesForQueuing t (queueReadyMessages no_faults now w))"
  shows "am_id (fst pm) \<notin> am_id ` set (filter (publishable (users w))
            (filter (readyForQueuing now) (autoMessages w)))"
proof
  assume p: "am_id (fst pm) \<in> am_id ` set (filter (publishable (users w))
      (filter (readyForQueuing now) (autoMessages w)))"
  from pm have x: "fst pm \<in> set (autoMessages (queueReadyMessages no_faults now w))"
      "readyForQueuing t (fst pm)"
    by (auto simp: getMessagesForQueuing_def populate_def)
  from published_marked [OF d x(1) p] obtain r where "fst pm = markAsQueued now r" by blast
  then show False using x(2) by (simp add: readyForQueuing_def markAsQueued_def)
qed

lemma map_am_id_save:
  "map am_id (saveAutoMessage (scanned us now d) coll) = map am_id coll"
  by (induction coll) (simp_all add: saveAutoMessage_def am_id_scanned)

lemma map_am_id_fold:
  "map am_id (fold (\<lambda>d. saveAutoMessage (scanned us now d)) ds coll) = map am_id coll"
  by (induction ds arbitrary: coll) (simp_all add: map_am_id_save)

lemma scan_keeps_ids:
  "map am_id (autoMessages (queueReadyMessages no_faults now w)) = map am_id (autoMessages w)"
  using scan_no_faults [of now w] by (simp add: map_am_id_fold)

lemma two_scans:
  assumes d: "distinct (map am_id (autoMessages w))"
  shows "map autoMessageId (queue (queueReadyMessages no_faults t1 w))
       = map autoMessageId (queue w) @ published t1 w"
    and "map autoMessageId (queue (queueReadyMessages no_faults t2 (queueReadyMessages no_faults t1 w)))
       = map autoMessageId (queue w) @ published t1 w
           @ published t2 (queueReadyMessages no_faults t1 w)"
    and "distinct (published t1 w @ published t2 (queueReadyMessages no_faults t1 w))"
proof -
  let ?w1 = "queueReadyMessages no_faults t1 w"
  show q1: "map autoMessageId (queue ?w1) = map autoMessageId (queue w) @ published t1 w"
    using scan_no_faults [of t1 w] by (simp add: published_def)
  show "map autoMessageId (queue (queueReadyMessages no_faults t2 ?w1))
       = map autoMessageId (queue w) @ published t1 w @ published t2 ?w1"
    using scan_no_faults [of t2 ?w1] q1 by (simp add: published_def)
  have d1: "distinct (map am_id (autoMessages ?w1))" using d by (simp add: scan_keeps_ids)
  have p1: "distinct (published t1 w)"
    unfolding published_def using d by (intro distinct_map_filter)
  have p2: "distinct (published t2 ?w1)"
    unfolding published_def using d1 by (intro distinct_map_filter)
  have disj: "i \<notin> set (published t1 w)" if "i \<in> set (published t2 ?w1)" for i
  proof -
    from that obtain r where r: "r \<in> set (autoMessages ?w1)" "readyForQueuing t2 r" "am_id r = i"
      by (auto simp: published_def)
    then have "populate (users ?w1) r \<in> set (getMessagesForQueuing t2 ?w1)"
      by (simp add: getMessagesForQueuing_def)
    from published_not_selected_again [OF d this] show ?thesis
      using r(3) by (simp add: fst_populate published_def)
  qed
  show "distinct (published t1 w @ published t2 ?w1)"
    using p1 p2 disj by auto
qed

text \<open>
  \<^verbatim>\<open>markAsQueued\<close> changes a record that is already queued,
  \<^verbatim>\<open>markAsSent\<close> marks a record that was never queued, and two scans that
  overlap, the second looping over what it read before the first one marked it,
  publish the same record twice.
\<close>

theorem conditional_write_counterexample:
  "isQueued queued_record
   \<and> queuedAt (markAsQueued 9 queued_record) = Some 9
   \<and> markAsQueued 9 queued_record \<noteq> queued_record
   \<and> \<not> isQueued example_record
   \<and> isSent (markAsSent 9 7 example_record)
   \<and> markAsSent 9 7 example_record \<noteq> example_record
   \<and> map autoMessageId (queue
        (queueLoop no_faults 2000 (getMessagesForQueuing 2000 example_world)
          (queueLoop no_faults 2000 (getMessagesForQueuing 2000 example_world) example_world)))
      = [1, 1]"
  by (simp add: queued_record_def example_record_def markAsQueued_def markAsSent_def
      scanner_defs example_world_def example_user_def no_faults_def)

text \<open>
  C2 (as amended). \<^verbatim>\<open>markAsQueued\<close> and \<^verbatim>\<open>markAsSent\<close> write in every
  state of the record: the first sets \<open>isQueued\<close> and \<open>queuedAt\<close>, the second
  \<open>isSent\<close>, \<open>sentAt\<close> and \<open>messageId\<close>, and each leaves every other path of the
  record as it was. What keeps a record from a second promotion is the scanner's
  query: a scan in which no call fails publishes each selected record whose users
  exist once, the stored record is then marked queued at the time of the scan, no
  later query returns it, and two such scans, one after the other, publish no record
  twice.
\<close>

theorem marks_unconditional:
  assumes "distinct (map am_id (autoMessages w))"
  shows "isQueued (markAsQueued now r) \<and> queuedAt (markAsQueued now r) = Some now
   \<and> am_id (markAsQueued now r) = am_id r \<and> sender (markAsQueued now r) = sender r
   \<and> receiver (markAsQueued now r) = receiver r \<and> content (markAsQueued now r) = content r
   \<and> sendDate (markAsQueued now r) = sendDate r \<and> createdAt (markAsQueued now r) = createdAt r
   \<and> isSent (markAsQueued now r) = isSent r \<and> sentAt (markAsQueued now r) = sentAt r
   \<and> messageId (markAsQueued now r) = messageId r
   \<and> retryCount (markAsQueued now r) = retryCount r \<and> error (markAsQueued now r) = error r
   \<and> isSent (markAsSent now m r) \<and> sentAt (markAsSent now m r) = Some now
   \<and> messageId (markAsSent now m r) = Some m
   \<and> am_id (markAsSent now m r) = am_id r \<and> sender (markAsSent now m r) = sender r
   \<and> receiver (markAsSent now m r) = receiver r \<and> content (markAsSent now m r) = content r
   \<and> sendDate (markAsSent now m r) = sendDate r \<and> createdAt (markAsSent now m r) = createdAt r
   \<and> isQueued (markAsSent now m r) = isQueued r \<and> queuedAt (markAsSent now m r) = queuedAt r
   \<and> retryCount (markAsSent now m r) = retryCount r \<and> error (markAsSent now m r) = error r
   \<and> (\<forall>x \<in> set (autoMessages (queueReadyMessages no_faults now w)).
         am_id x \<in> set (published now w) \<longrightarrow> isQueued x \<and> queuedAt x = Some now)
   \<and> (\<forall>t pm. pm \<in> set (getMessagesForQueuing t (queueReadyMessages no_faults now w))
        \<longrightarrow> am_id (fst pm) \<notin> set (published now w))
   \<and> map autoMessageId (queue (queueReadyMessages no_faults now w))
       = map autoMessageId (queue w) @ published now w
   \<and> map autoMessageId
        (queue (queueReadyMessages no_faults t2 (queueReadyMessages no_faults now w)))
       = map autoMessageId (queue w) @ published now w
           @ published t2 (queueReadyMessages no_faults now w)
   \<and> distinct (published now w @ published t2 (queueReadyMessages no_faults now w))"
proof -
  have sel: "am_id (fst pm) \<notin> set (published now w)"
    if "pm \<in> set (getMessagesForQueuing t (queueReadyMessages no_faults now w))" for t pm
    using published_not_selected_again [OF assms that] by (simp add: published_def)
  have marked: "isQueued x \<and> queuedAt x = Some now"
    if "x \<in> set (autoMessages (queueReadyMessages no_faults now w))"
      "am_id x \<in> set (published now w)" for x
  proof -
    from that(2) have "am_id x \<in> am_id ` set (filter (publishable (users w))
        (filter (readyForQueuing now) (autoMessages w)))"
      by (simp add: published_def)
    from published_marked [OF assms that(1) this] obtain r' where "x = markAsQueued now r'"
      by blast
    then show ?thesis by (simp add: markAsQueued_def)
  qed
  have frame: "am_id (markAsQueued now r) = am_id r \<and> sender (markAsQueued now r) = sender r
     \<and> receiver (markAsQueued now r) = receiver r \<and> content (markAsQueued now r) = content r
     \<and> sendDate (markAsQueued now r) = sendDate r \<and> createdAt (markAsQueued now r) = createdAt r
     \<and> isSent (markAsQueued now r) = isSent r \<and> sentAt (markAsQueued now r) = sentAt r
     \<and> messageId (markAsQueued now r) = messageId r
     \<and> retryCount (markAsQueued now r) = retryCount r \<and> error (markAsQueued now r) = error r
     \<and> am_id (markAsSent now m r) = am_id r \<and> sender (markAsSent now m r) = sender r
     \<and> receiver (markAsSent now m r) = receiver r \<and> content (markAsSent now m r) = content r
     \<and> sendDate (markAsSent now m r) = sendDate r \<and> createdAt (markAsSent now m r) = createdAt r
     \<and> isQueued (markAsSent now m r) = isQueued r \<and> queuedAt (markAsSent now m r) = queuedAt r
     \<and> retryCount (markAsSent now m r) = retryCount r \<and> error (markAsSent now m r) = error r"
    by (simp add: markAsQueued_def markAsSent_def)
  have sets: "isQueued (markAsQueued now r) \<and> queuedAt (markAsQueued now r) = Some now
     \<and> isSent (markAsSent now m r) \<and> sentAt (markAsSent now m r) = Some now
     \<and> messageId (markAsSent now m r) = Some m"
    by (simp add: markAsQueued_def markAsSent_def)
  show ?thesis
    using sel marked frame sets two_scans(1) [OF assms, of now]
      two_scans(2,3) [OF assms, where ?t1.0 = now and ?t2.0 = t2]
    by (intro conjI ballI allI impI) simp_all
qed

theorem marks_unconditional_witness:
  "distinct (map am_id (autoMessages example_world))
   \<and> queuedAt (markAsQueued 9 queued_record) = Some 9
   \<and> isSent (markAsSent 9 7 example_record)
   \<and> published 2000 example_world = [1]
   \<and> map am_id (autoMessages (queueReadyMessages no_faults 2000 example_world)) = [1]
   \<and> map queuedAt (autoMessages (queueReadyMessages no_faults 2000 example_world)) = [Some 2000]
   \<and> map autoMessageId (queue (queueReadyMessages no_faults 2000 example_world)) = [1]
   \<and> map autoMessageId
        (queue (queueReadyMessages no_faults 3000 (queueReadyMessages no_faults 2000 example_world)))
       = [1]"
proof -
  have d: "distinct (map am_id (autoMessages example_world))"
    by (simp add: example_world_def)
  have p: "published 2000 example_world = [1]"
    by (simp add: published_def publishable_def readyForQueuing_def findUserById_def
        example_world_def example_record_def example_user_def)
  show ?thesis
    using d p marks_unconditional [OF d, where now = 2000 and r = queued_record and m = 7
        and ?t2.0 = 3000]
    by (simp add: queueReadyMessages_def scanner_defs published_def publishable_def
        markAsSent_def queued_record_def example_world_def example_record_def example_user_def
        no_faults_def)
qed

end
